theory Spec2Isabelle
  imports Main "HOL-Library.List_Lexorder" "HOL-Library.Sublist" "HOL-Library.Multiset"
begin

section \<open>Python values\<close>

text \<open>
  A Python \<open>str\<close> is a sequence of Unicode code points, so it is modelled as a list of
  naturals; \<open>asc\<close> turns an ASCII literal of the source into that form. Strings are
  ordered lexicographically by code point, as Python orders them.
\<close>

type_synonym pystr = "nat list"

definition asc :: "string \<Rightarrow> pystr" where
  "asc s = map of_char s"

text \<open>
  Python floats are kept opaque: the program only passes them to \<open>int\<close> and \<open>str\<close>.
\<close>

typedecl pyfloat

datatype pyval =
    PNone
  | PBool bool
  | PInt int
  | PFloat pyfloat
  | PStr pystr
  | PList "pyval list"
  | PDict "(pystr \<times> pyval) list"

datatype py_error =
    KeyError
  | TypeError
  | ValueError
  | OverflowError
  | JSONDecodeError
  | LangDetectException
  | ServiceError

text \<open>
  A \<open>dict\<close> is an association list in insertion order with pairwise distinct keys.
  \<open>d.get(k)\<close> is \<open>map_of d k\<close>; \<open>d[k] = v\<close> replaces the value in place when the key
  is present and appends the pair otherwise.
\<close>

type_synonym ('k, 'v) dict = "('k \<times> 'v) list"

type_synonym job = "(pystr, pyval) dict"

fun setitem :: "('k, 'v) dict \<Rightarrow> 'k \<Rightarrow> 'v \<Rightarrow> ('k, 'v) dict" where
  "setitem [] k v = [(k, v)]"
| "setitem ((k', v') # d) k v = (if k' = k then (k, v) # d else (k', v') # setitem d k v)"

definition getitem :: "('k, 'v) dict \<Rightarrow> 'k \<Rightarrow> py_error + 'v" where
  "getitem d k = (case map_of d k of None \<Rightarrow> Inl KeyError | Some v \<Rightarrow> Inr v)"

section \<open>Deduplicator\<close>

text \<open>
  \<open>tuple(sorted(d.items()))\<close>: the keys of a dict are distinct, so sorting the items
  compares keys only. Two such tuples are the same member of \<open>seen\<close> when they are
  equal; the fields of a record read from the CSV file are strings or \<open>None\<close>, for
  which Python's equality is the equality of the model.
\<close>

definition tuple_repr :: "('k::linorder, 'v) dict \<Rightarrow> ('k \<times> 'v) list" where
  "tuple_repr d = sort_key fst d"

text \<open>The loop of \<open>remove_exact_duplicates\<close>, with its two accumulators.\<close>

fun red_loop ::
  "('k::linorder \<times> 'v) list set \<Rightarrow> ('k, 'v) dict list \<Rightarrow> ('k, 'v) dict list \<Rightarrow> ('k, 'v) dict list"
where
  "red_loop seen unique_list [] = unique_list"
| "red_loop seen unique_list (d # lst) =
     (if tuple_repr d \<notin> seen
      then red_loop (insert (tuple_repr d) seen) (unique_list @ [d]) lst
      else red_loop seen unique_list lst)"

definition remove_exact_duplicates :: "('k::linorder, 'v) dict list \<Rightarrow> ('k, 'v) dict list" where
  "remove_exact_duplicates lst = red_loop {} [] lst"

text \<open>
  The same traversal without the output accumulator: the records whose sorted items are
  not in \<open>seen\<close> and have not occurred earlier in the list.
\<close>

fun first_seen :: "('k::linorder \<times> 'v) list set \<Rightarrow> ('k, 'v) dict list \<Rightarrow> ('k, 'v) dict list" where
  "first_seen seen [] = []"
| "first_seen seen (d # lst) =
     (if tuple_repr d \<notin> seen
      then d # first_seen (insert (tuple_repr d) seen) lst
      else first_seen seen lst)"


section \<open>Regular-expression substitutions of the source\<close>

abbreviation lbrace :: nat where "lbrace \<equiv> 123"
abbreviation rbrace :: nat where "rbrace \<equiv> 125"
abbreviation newline :: nat where "newline \<equiv> 10"
abbreviation space :: nat where "space \<equiv> 32"

subsection \<open>\<open>re.sub(r"^[^{]*|[^}]*$", "", s)\<close>\<close>

text \<open>
  The pattern has two alternatives, tried in this order at every position:
  \<open>^[^{]*\<close>, which can only match where the string begins, and \<open>[^}]*$\<close>.
  Without the MULTILINE flag \<open>$\<close> holds at the end of the string and just before a
  newline that ends the string.
\<close>

definition at_dollar :: "pystr \<Rightarrow> bool" where
  "at_dollar r = (r = [] \<or> r = [newline])"

text \<open>
  \<open>[^}]*$\<close> on the rest \<open>r\<close> of the string: the star first takes the \<open>n\<close> characters
  up to the next \<open>}\<close> and gives them back one at a time until \<open>$\<close> holds. With
  \<open>adv\<close> set an empty match is refused (see \<open>re_sub_loop\<close>). The result is the length
  of the match.
\<close>

fun star_then_dollar :: "bool \<Rightarrow> pystr \<Rightarrow> nat \<Rightarrow> nat option" where
  "star_then_dollar adv r 0 = (if at_dollar r \<and> \<not> adv then Some 0 else None)"
| "star_then_dollar adv r (Suc n) =
     (if at_dollar (drop (Suc n) r) then Some (Suc n) else star_then_dollar adv r n)"

definition match_tail :: "bool \<Rightarrow> pystr \<Rightarrow> nat option" where
  "match_tail adv r = star_then_dollar adv r (length (takeWhile (\<lambda>c. c \<noteq> rbrace) r))"

text \<open>
  \<open>^[^{]*\<close>: \<open>bos\<close> says whether the position is the beginning of the string. Nothing
  follows the star, so its longest match stands unless it is empty and refused.
\<close>

definition match_head :: "bool \<Rightarrow> bool \<Rightarrow> pystr \<Rightarrow> nat option" where
  "match_head bos adv r =
     (let n = length (takeWhile (\<lambda>c. c \<noteq> lbrace) r)
      in if bos \<and> \<not> (adv \<and> n = 0) then Some n else None)"

definition match_here :: "bool \<Rightarrow> bool \<Rightarrow> pystr \<Rightarrow> nat option" where
  "match_here bos adv r =
     (case match_head bos adv r of Some n \<Rightarrow> Some n | None \<Rightarrow> match_tail adv r)"

text \<open>
  The search for the next match scans the positions from left to right, the end of the
  string included; \<open>adv\<close> only concerns the first position tried. The result is the
  offset of the match and its length.
\<close>

fun re_search :: "bool \<Rightarrow> bool \<Rightarrow> pystr \<Rightarrow> (nat \<times> nat) option" where
  "re_search bos adv [] =
     (case match_here bos adv [] of Some n \<Rightarrow> Some (0, n) | None \<Rightarrow> None)"
| "re_search bos adv (c # r) =
     (case match_here bos adv (c # r) of
        Some n \<Rightarrow> Some (0, n)
      | None \<Rightarrow>
          (case re_search False False r of
             Some (b, n) \<Rightarrow> Some (Suc b, n)
           | None \<Rightarrow> None))"

lemma star_then_dollar_bounds:
  "star_then_dollar adv r n = Some m \<Longrightarrow> m \<le> n \<and> (adv \<longrightarrow> 0 < m)"
  by (induction n) (auto split: if_splits)

lemma match_here_bounds:
  "match_here bos adv r = Some n \<Longrightarrow> n \<le> length r \<and> (adv \<longrightarrow> 0 < n)"
proof (cases "match_head bos adv r")
  case None
  assume "match_here bos adv r = Some n"
  with None have "star_then_dollar adv r (length (takeWhile (\<lambda>c. c \<noteq> rbrace) r)) = Some n"
    by (simp add: match_here_def match_tail_def)
  from star_then_dollar_bounds [OF this] length_takeWhile_le [of "\<lambda>c. c \<noteq> rbrace" r]
  show ?thesis by auto
next
  case (Some k)
  assume "match_here bos adv r = Some n"
  with Some have "k = n" by (simp add: match_here_def)
  with Some length_takeWhile_le [of "\<lambda>c. c \<noteq> lbrace" r] show ?thesis
    by (auto simp: match_head_def Let_def split: if_splits)
qed

lemma re_search_bounds:
  "re_search bos adv r = Some (b, n) \<Longrightarrow> b + n \<le> length r \<and> (adv \<longrightarrow> 0 < b + n)"
proof (induction r arbitrary: bos adv b n)
  case Nil
  then show ?case
    by (auto split: option.splits dest: match_here_bounds)
next
  case (Cons c r)
  show ?case
  proof (cases "match_here bos adv (c # r)")
    case (Some k)
    with Cons.prems have "b = 0" "k = n" by simp_all
    with match_here_bounds [OF Some] show ?thesis by simp
  next
    case None
    with Cons.prems obtain b' where s: "re_search False False r = Some (b', n)" and b: "b = Suc b'"
      by (auto split: option.splits)
    from Cons.IH [OF s] b show ?thesis by simp
  qed
qed

text \<open>
  The substitution loop of \<open>re.sub\<close> with the empty replacement: the text before each
  match is copied, the match is dropped, and the search goes on behind it. After an
  empty match the next match at the same position must not be empty (\<open>adv\<close>); what
  is left when no match is found is copied.
\<close>

function re_sub_loop :: "bool \<Rightarrow> bool \<Rightarrow> pystr \<Rightarrow> pystr" where
  "re_sub_loop bos adv r =
     (case re_search bos adv r of
        None \<Rightarrow> r
      | Some (b, n) \<Rightarrow> take b r @ re_sub_loop (bos \<and> b + n = 0) (n = 0) (drop (b + n) r))"
  by pat_completeness auto
termination
proof (relation "measure (\<lambda>(bos, adv, r). 2 * length r + (if adv then 0 else 1))")
  show "wf (measure (\<lambda>(bos, adv, r). 2 * length r + (if adv then 0 else 1)))" by simp
next
  fix bos adv :: bool and r :: pystr and x2 b n
  assume "re_search bos adv r = Some x2" and "(b, n) = x2"
  then have "re_search bos adv r = Some (b, n)" by simp
  from re_search_bounds [OF this]
  show "((bos \<and> b + n = 0, n = 0, drop (b + n) r), bos, adv, r)
        \<in> measure (\<lambda>(bos, adv, r). 2 * length r + (if adv then 0 else 1))"
    by (cases "b + n = 0") auto
qed

declare re_sub_loop.simps [simp del]

definition re_sub_braces :: "pystr \<Rightarrow> pystr" where
  "re_sub_braces s = re_sub_loop True False s"

text \<open>\<open>re.sub(r'[^\x00-\x7F]+', '', text)\<close>: every maximal run of code points above 0x7F is dropped.\<close>

function re_sub_non_ascii :: "pystr \<Rightarrow> pystr" where
  "re_sub_non_ascii [] = []"
| "re_sub_non_ascii (c # cs) =
     (if c \<le> 127 then c # re_sub_non_ascii cs
      else re_sub_non_ascii (dropWhile (\<lambda>c. 127 < c) cs))"
  by pat_completeness auto
termination
  by (relation "measure length") (auto simp: less_Suc_eq_le length_dropWhile_le)

section \<open>Embedder\<close>

text \<open>
  \<open>str.isspace\<close> for one code point: the characters \<open>str.split()\<close> splits at.
\<close>

definition py_isspace :: "nat \<Rightarrow> bool" where
  "py_isspace c =
     ((9 \<le> c \<and> c \<le> 13) \<or> (28 \<le> c \<and> c \<le> 32) \<or> c = 133 \<or> c = 160 \<or> c = 5760
      \<or> (8192 \<le> c \<and> c \<le> 8202) \<or> c = 8232 \<or> c = 8233 \<or> c = 8239 \<or> c = 8287
      \<or> c = 12288)"

text \<open>
  \<open>s.split()\<close>: skip whitespace; if anything is left, the next word runs to the next
  whitespace character; go on behind it.
\<close>

function py_split :: "pystr \<Rightarrow> pystr list" where
  "py_split s =
     (let r = dropWhile py_isspace s
      in if r = [] then []
         else takeWhile (\<lambda>c. \<not> py_isspace c) r # py_split (dropWhile (\<lambda>c. \<not> py_isspace c) r))"
  by pat_completeness auto
termination
proof (relation "measure length")
  show "wf (measure length)" by simp
next
  fix s r :: pystr
  assume r: "r = dropWhile py_isspace s" and ne: "r \<noteq> []"
  from ne obtain c cs where cs: "r = c # cs" by (cases r) auto
  from r ne have "\<not> py_isspace (hd r)" by (simp add: hd_dropWhile)
  with cs have "\<not> py_isspace c" by simp
  with cs have "length (dropWhile (\<lambda>c. \<not> py_isspace c) r) \<le> length cs"
    by (simp add: length_dropWhile_le)
  also have "length cs < length r" using cs by simp
  also have "length r \<le> length s" using r by (simp add: length_dropWhile_le)
  finally show "(dropWhile (\<lambda>c. \<not> py_isspace c) r, s) \<in> measure length" by simp
qed

declare py_split.simps [simp del]

text \<open>\<open>' '.join(words)\<close>\<close>

fun join_space :: "pystr list \<Rightarrow> pystr" where
  "join_space [] = []"
| "join_space [w] = w"
| "join_space (w # v # ws) = w @ space # join_space (v # ws)"

text \<open>The first line of \<open>create_embedding\<close>.\<close>

definition preprocess :: "pystr \<Rightarrow> pystr" where
  "preprocess text = join_space (py_split (re_sub_non_ascii text))"

section \<open>External services and the Python runtime\<close>

text \<open>
  What the program calls and does not define is a parameter of the model: the language
  detector, the embedding service, the vector store, the language model and the JSON
  parser, each returning a value or the exception it raised. The detector, the embedding
  service and the language model need not answer the same request twice alike, so each
  takes the position of the call in its loop as well. The parts of the built-ins
  \<open>int\<close>, \<open>str\<close> and \<open><\<close> that are not modelled here (parsing a string as an integer,
  floats, the text form and the order of containers) are parameters too.
\<close>

record ('e, 'c) services =
  detect :: "nat \<Rightarrow> pyval \<Rightarrow> py_error + pystr"
  embeddings :: "nat \<Rightarrow> pystr \<Rightarrow> py_error + 'e"
  collection_add :: "'c \<Rightarrow> pyval \<Rightarrow> 'e \<Rightarrow> pyval \<Rightarrow> py_error + 'c"
  collection_query :: "'c \<Rightarrow> 'e \<Rightarrow> nat \<Rightarrow> py_error + pystr list"
  generate :: "nat \<Rightarrow> pystr \<Rightarrow> py_error + pystr"
  loads :: "pystr \<Rightarrow> py_error + pyval"
  int_of_str :: "pystr \<Rightarrow> py_error + int"
  int_of_float :: "pyfloat \<Rightarrow> py_error + int"
  repr_other :: "pyval \<Rightarrow> pystr"
  lt_other :: "pyval \<Rightarrow> pyval \<Rightarrow> py_error + bool"

text \<open>\<open>int(v)\<close>\<close>

definition py_int :: "('e, 'c) services \<Rightarrow> pyval \<Rightarrow> py_error + int" where
  "py_int sv v =
     (case v of
        PBool b \<Rightarrow> Inr (if b then 1 else 0)
      | PInt i \<Rightarrow> Inr i
      | PFloat f \<Rightarrow> int_of_float sv f
      | PStr s \<Rightarrow> int_of_str sv s
      | _ \<Rightarrow> Inl TypeError)"

text \<open>\<open>str(v)\<close>; an integer is written in decimal.\<close>

function nat_str :: "nat \<Rightarrow> pystr" where
  "nat_str n = (if n < 10 then [48 + n] else nat_str (n div 10) @ [48 + n mod 10])"
  by pat_completeness auto
termination
  by (relation "measure id") auto

declare nat_str.simps [simp del]

definition int_str :: "int \<Rightarrow> pystr" where
  "int_str i = (if i < 0 then 45 # nat_str (nat (- i)) else nat_str (nat i))"

definition py_str :: "('e, 'c) services \<Rightarrow> pyval \<Rightarrow> pystr" where
  "py_str sv v =
     (case v of
        PStr s \<Rightarrow> s
      | PInt i \<Rightarrow> int_str i
      | PBool b \<Rightarrow> (if b then asc ''True'' else asc ''False'')
      | PNone \<Rightarrow> asc ''None''
      | _ \<Rightarrow> repr_other sv v)"

text \<open>\<open>v[k]\<close> for a string key \<open>k\<close>: only a dict can be subscripted by a string.\<close>

definition subscript :: "pyval \<Rightarrow> pystr \<Rightarrow> py_error + pyval" where
  "subscript v k = (case v of PDict d \<Rightarrow> getitem d k | _ \<Rightarrow> Inl TypeError)"

text \<open>
  \<open>a < b\<close>: strings are compared with strings, integers and booleans with each other;
  a string against a number, \<open>None\<close> and dicts cannot be ordered.
\<close>

definition num_val :: "pyval \<Rightarrow> int option" where
  "num_val v = (case v of PInt i \<Rightarrow> Some i | PBool b \<Rightarrow> Some (if b then 1 else 0) | _ \<Rightarrow> None)"

definition is_float :: "pyval \<Rightarrow> bool" where
  "is_float v = (case v of PFloat f \<Rightarrow> True | _ \<Rightarrow> False)"

definition is_list :: "pyval \<Rightarrow> bool" where
  "is_list v = (case v of PList l \<Rightarrow> True | _ \<Rightarrow> False)"

definition py_lt :: "('e, 'c) services \<Rightarrow> pyval \<Rightarrow> pyval \<Rightarrow> py_error + bool" where
  "py_lt sv a b =
     (case (a, b) of
        (PStr x, PStr y) \<Rightarrow> Inr (x < y)
      | _ \<Rightarrow>
          (case (num_val a, num_val b) of
             (Some x, Some y) \<Rightarrow> Inr (x < y)
           | _ \<Rightarrow>
               if (is_float a \<and> (is_float b \<or> num_val b \<noteq> None))
                  \<or> (num_val a \<noteq> None \<and> is_float b)
                  \<or> (is_list a \<and> is_list b)
               then lt_other sv a b
               else Inl TypeError))"

text \<open>
  \<open>sorted(xs, key=key, reverse=True)\<close>. The built-in sort is stable and compares keys
  with \<open><\<close> only; with \<open>reverse=True\<close> it sorts the reversed list and reverses the
  result. It is modelled by the insertion sort that puts each element behind the elements
  it is not smaller than; a comparison that raises ends the sort with that exception.
\<close>

fun insert_sorted ::
  "('k \<Rightarrow> 'k \<Rightarrow> py_error + bool) \<Rightarrow> ('a \<Rightarrow> 'k) \<Rightarrow> 'a \<Rightarrow> 'a list \<Rightarrow> py_error + 'a list"
where
  "insert_sorted lt key x [] = Inr [x]"
| "insert_sorted lt key x (y # ys) =
     (case lt (key x) (key y) of
        Inl e \<Rightarrow> Inl e
      | Inr True \<Rightarrow> Inr (x # y # ys)
      | Inr False \<Rightarrow>
          (case insert_sorted lt key x ys of Inl e \<Rightarrow> Inl e | Inr zs \<Rightarrow> Inr (y # zs)))"

fun sort_loop ::
  "('k \<Rightarrow> 'k \<Rightarrow> py_error + bool) \<Rightarrow> ('a \<Rightarrow> 'k) \<Rightarrow> 'a list \<Rightarrow> 'a list \<Rightarrow> py_error + 'a list"
where
  "sort_loop lt key acc [] = Inr acc"
| "sort_loop lt key acc (x # xs) =
     (case insert_sorted lt key x acc of
        Inl e \<Rightarrow> Inl e
      | Inr acc' \<Rightarrow> sort_loop lt key acc' xs)"

definition py_sorted_reverse ::
  "('k \<Rightarrow> 'k \<Rightarrow> py_error + bool) \<Rightarrow> ('a \<Rightarrow> 'k) \<Rightarrow> 'a list \<Rightarrow> py_error + 'a list"
where
  "py_sorted_reverse lt key xs =
     (case sort_loop lt key [] (rev xs) of Inl e \<Rightarrow> Inl e | Inr ys \<Rightarrow> Inr (rev ys))"

section \<open>Embedder and Retriever\<close>

definition LANG :: pystr where
  "LANG = asc ''en''"

definition N_RESULTS :: nat where
  "N_RESULTS = 25"

text \<open>
  \<open>create_embedding\<close>: the preprocessed text goes to the embedding service; an exception
  of the service is not caught here.
\<close>

definition create_embedding :: "('e, 'c) services \<Rightarrow> nat \<Rightarrow> pystr \<Rightarrow> py_error + 'e" where
  "create_embedding sv i text = embeddings sv i (preprocess text)"

text \<open>
  \<open>store_embeddings\<close> catches every exception of the store and reports it as
  \<open>False\<close>; the collection is then the one before the call.
\<close>

definition store_embeddings ::
  "('e, 'c) services \<Rightarrow> 'c \<Rightarrow> pyval \<Rightarrow> 'e \<Rightarrow> pyval \<Rightarrow> 'c \<times> bool"
where
  "store_embeddings sv coll ident embedding document =
     (case collection_add sv coll ident embedding document of
        Inl e \<Rightarrow> (coll, False)
      | Inr coll' \<Rightarrow> (coll', True))"

text \<open>
  \<open>job['title'] + job['description'] + job['company']\<close>, handed to \<open>create_embedding\<close>.
  The fields of a record come from the cells of the CSV file: each is a string or
  \<open>None\<close>. The sum of two of them is a string when both are strings and raises a
  \<open>TypeError\<close> otherwise.
\<close>

definition as_str :: "pyval \<Rightarrow> py_error + pystr" where
  "as_str v = (case v of PStr s \<Rightarrow> Inr s | _ \<Rightarrow> Inl TypeError)"

definition job_text :: "job \<Rightarrow> py_error + pystr" where
  "job_text job =
     (case getitem job (asc ''title'') of
        Inl e \<Rightarrow> Inl e
      | Inr title \<Rightarrow>
     (case getitem job (asc ''description'') of
        Inl e \<Rightarrow> Inl e
      | Inr description \<Rightarrow>
     (case as_str title of
        Inl e \<Rightarrow> Inl e
      | Inr t \<Rightarrow>
     (case as_str description of
        Inl e \<Rightarrow> Inl e
      | Inr d \<Rightarrow>
     (case getitem job (asc ''company'') of
        Inl e \<Rightarrow> Inl e
      | Inr company \<Rightarrow>
     (case as_str company of
        Inl e \<Rightarrow> Inl e
      | Inr c \<Rightarrow> Inr (t @ d @ c)))))))"

text \<open>
  \<open>embed_jobs\<close>: the body of the loop has no exception handler, so an exception of
  the detector, of a field access or of \<open>create_embedding\<close> ends the loop and is the
  result. \<open>i\<close> is the position of the job in the list.
\<close>

fun embed_jobs :: "('e, 'c) services \<Rightarrow> nat \<Rightarrow> 'c \<Rightarrow> job list \<Rightarrow> py_error + 'c" where
  "embed_jobs sv i coll [] = Inr coll"
| "embed_jobs sv i coll (job # jobs) =
     (case getitem job (asc ''description'') of
        Inl e \<Rightarrow> Inl e
      | Inr description \<Rightarrow>
     (case detect sv i description of
        Inl e \<Rightarrow> Inl e
      | Inr lang \<Rightarrow>
          if lang = LANG then
            (case job_text job of
               Inl e \<Rightarrow> Inl e
             | Inr text \<Rightarrow>
            (case create_embedding sv i text of
               Inl e \<Rightarrow> Inl e
             | Inr embedding \<Rightarrow>
            (case getitem job (asc ''id'') of
               Inl e \<Rightarrow> Inl e
             | Inr ident \<Rightarrow>
                 embed_jobs sv (Suc i)
                   (fst (store_embeddings sv coll ident embedding description)) jobs)))
          else embed_jobs sv (Suc i) coll jobs))"

section \<open>Curator\<close>

text \<open>\<open>json.loads(re.sub(r"^[^{]*|[^}]*$", "", summary['response']))\<close>\<close>

definition parse_response :: "('e, 'c) services \<Rightarrow> pystr \<Rightarrow> py_error + pyval" where
  "parse_response sv text = loads sv (re_sub_braces text)"

text \<open>
  The \<open>try\<close> block of the curation loop. The record is changed in place, so the result
  is the record as the block leaves it, together with how the block ended: \<open>Inl e\<close> when
  the exception \<open>e\<close> was raised and caught, \<open>Inr True\<close> when the record was appended
  to \<open>final_jobs\<close>, \<open>Inr False\<close> when the score was not positive.
\<close>

definition curate_try :: "('e, 'c) services \<Rightarrow> job \<Rightarrow> pystr \<Rightarrow> job \<times> (py_error + bool)" where
  "curate_try sv current_job text =
     (case parse_response sv text of
        Inl e \<Rightarrow> (current_job, Inl e)
      | Inr response \<Rightarrow>
     (case subscript response (asc ''Suitability'') of
        Inl e \<Rightarrow> (current_job, Inl e)
      | Inr s \<Rightarrow>
     (case py_int sv s of
        Inl e \<Rightarrow> (current_job, Inl e)
      | Inr n \<Rightarrow>
          if 0 < n then
            (case subscript response (asc ''Job_summary'') of
               Inl e \<Rightarrow> (current_job, Inl e)
             | Inr js \<Rightarrow>
            (case subscript response (asc ''Match_summary'') of
               Inl e \<Rightarrow> (setitem current_job (asc ''summary'') js, Inl e)
             | Inr ms \<Rightarrow>
            (case subscript response (asc ''Suitability'') of
               Inl e \<Rightarrow>
                 (setitem (setitem current_job (asc ''summary'') js) (asc ''match'') ms, Inl e)
             | Inr s' \<Rightarrow>
                 (setitem
                    (setitem (setitem current_job (asc ''summary'') js) (asc ''match'') ms)
                    (asc ''suitability'') (PStr (py_str sv s')),
                  Inr True))))
          else (current_job, Inr False))))"

text \<open>
  \<open>next((d for d in jobs_list if d.get("id") == Id), None)\<close>, as the position of the
  record in \<open>jobs_list\<close>: the loop changes that record through the reference it gets.
\<close>

fun find_job :: "job list \<Rightarrow> pystr \<Rightarrow> nat option" where
  "find_job [] ident = None"
| "find_job (d # ds) ident =
     (if map_of d (asc ''id'') = Some (PStr ident) then Some 0
      else map_option Suc (find_job ds ident))"

definition build_prompt :: "pystr \<Rightarrow> pystr \<Rightarrow> pystr \<Rightarrow> pystr" where
  "build_prompt curation_prompt profile description =
     curation_prompt @ asc '' The profile is:'' @ profile
       @ asc ''. The job description is: '' @ description"

text \<open>
  One pass of the curation loop for the retrieved id \<open>ident\<close>, the \<open>n\<close>-th of the
  list. The state is \<open>jobs_list\<close> and \<open>final_jobs\<close>, the latter as the list of
  positions in \<open>jobs_list\<close> of the records it refers to. What is raised outside the
  \<open>try\<close> block ends the run: an id that no record has (the subscript of \<open>None\<close>), a
  missing title or description, an exception of the language model.
\<close>

definition curate_step ::
  "('e, 'c) services \<Rightarrow> pystr \<Rightarrow> pystr \<Rightarrow> nat \<Rightarrow> job list \<times> nat list \<Rightarrow> pystr
   \<Rightarrow> py_error + job list \<times> nat list"
where
  "curate_step sv curation_prompt profile n st ident =
     (case find_job (fst st) ident of
        None \<Rightarrow> Inl TypeError
      | Some i \<Rightarrow>
     (case getitem (fst st ! i) (asc ''title'') of
        Inl e \<Rightarrow> Inl e
      | Inr title \<Rightarrow>
     (case getitem (fst st ! i) (asc ''description'') of
        Inl e \<Rightarrow> Inl e
      | Inr description \<Rightarrow>
     (case generate sv n (build_prompt curation_prompt profile (py_str sv description)) of
        Inl e \<Rightarrow> Inl e
      | Inr text \<Rightarrow>
          Inr ((fst st)[i := fst (curate_try sv (fst st ! i) text)],
               if snd (curate_try sv (fst st ! i) text) = Inr True then snd st @ [i]
               else snd st)))))"

fun curation_loop ::
  "('e, 'c) services \<Rightarrow> pystr \<Rightarrow> pystr \<Rightarrow> nat \<Rightarrow> job list \<times> nat list \<Rightarrow> pystr list
   \<Rightarrow> py_error + job list \<times> nat list"
where
  "curation_loop sv curation_prompt profile n st [] = Inr st"
| "curation_loop sv curation_prompt profile n st (ident # idents) =
     (case curate_step sv curation_prompt profile n st ident of
        Inl e \<Rightarrow> Inl e
      | Inr st' \<Rightarrow> curation_loop sv curation_prompt profile (Suc n) st' idents)"

section \<open>Ranker\<close>

text \<open>\<open>sorted(final_jobs, key=lambda d: d.get("suitability", 2), reverse=True)\<close>\<close>

definition suitability_key :: "job \<Rightarrow> pyval" where
  "suitability_key d = (case map_of d (asc ''suitability'') of None \<Rightarrow> PInt 2 | Some v \<Rightarrow> v)"

definition ranker :: "('e, 'c) services \<Rightarrow> job list \<Rightarrow> py_error + job list" where
  "ranker sv final_jobs = py_sorted_reverse (py_lt sv) suitability_key final_jobs"

section \<open>The run\<close>

text \<open>
  The statements of the module after the input files are read: \<open>jobs\<close> is the list
  read from the CSV file, \<open>profile\<close> the text of the profile, \<open>coll\<close> the empty
  collection. The result is the list handed to the report, or the exception that ended
  the run.
\<close>

definition run ::
  "('e, 'c) services \<Rightarrow> pystr \<Rightarrow> 'c \<Rightarrow> job list \<Rightarrow> pystr \<Rightarrow> py_error + job list"
where
  "run sv curation_prompt coll jobs profile =
     (case embed_jobs sv 0 coll (remove_exact_duplicates jobs) of
        Inl e \<Rightarrow> Inl e
      | Inr coll' \<Rightarrow>
     (case create_embedding sv (length (remove_exact_duplicates jobs)) profile of
        Inl e \<Rightarrow> Inl e
      | Inr profile_embedding \<Rightarrow>
     (case collection_query sv coll' profile_embedding N_RESULTS of
        Inl e \<Rightarrow> Inl e
      | Inr idents \<Rightarrow>
     (case curation_loop sv curation_prompt profile 0 (remove_exact_duplicates jobs, []) idents of
        Inl e \<Rightarrow> Inl e
      | Inr st \<Rightarrow> ranker sv (map (\<lambda>i. fst st ! i) (snd st))))))"

section \<open>Notions of the specification\<close>

text \<open>
  What the specification says JSON extraction leaves: the string without the characters
  before its first \<open>{\<close> and without the characters after its last \<open>}\<close>.
\<close>

definition strip_outside_braces :: "pystr \<Rightarrow> pystr" where
  "strip_outside_braces s =
     (let k = length (takeWhile (\<lambda>c. c \<noteq> lbrace) s);
          t = length (takeWhile (\<lambda>c. c \<noteq> rbrace) (rev s))
      in drop k (take (length s - t) s))"

text \<open>
  What the specification says the Embedder sends: the text without its characters
  outside 0x00-0x7F, every run of whitespace collapsed to one space, and trimmed.
\<close>

function collapse_ws :: "pystr \<Rightarrow> pystr" where
  "collapse_ws [] = []"
| "collapse_ws (c # cs) =
     (if py_isspace c then space # collapse_ws (dropWhile py_isspace cs)
      else c # collapse_ws cs)"
  by pat_completeness auto
termination
  by (relation "measure length") (auto simp: less_Suc_eq_le length_dropWhile_le)

definition rstrip_ws :: "pystr \<Rightarrow> pystr" where
  "rstrip_ws s = rev (dropWhile py_isspace (rev s))"

definition trim_ws :: "pystr \<Rightarrow> pystr" where
  "trim_ws s = rstrip_ws (dropWhile py_isspace s)"

definition normalized :: "pystr \<Rightarrow> pystr" where
  "normalized text = trim_ws (collapse_ws (filter (\<lambda>c. c \<le> 127) text))"

text \<open>
  What the specification asks of a response for its job to be kept: it parses to an
  object that has the three fields, and \<open>Suitability\<close> coerces to an integer above 0.
\<close>

definition accepted_response :: "('e, 'c) services \<Rightarrow> pystr \<Rightarrow> bool" where
  "accepted_response sv text =
     (case parse_response sv text of
        Inr (PDict d) \<Rightarrow>
          (case map_of d (asc ''Suitability'') of
             Some s \<Rightarrow>
               (case py_int sv s of Inr n \<Rightarrow> 0 < n | Inl e \<Rightarrow> False)
               \<and> map_of d (asc ''Job_summary'') \<noteq> None
               \<and> map_of d (asc ''Match_summary'') \<noteq> None
           | None \<Rightarrow> False)
      | _ \<Rightarrow> False)"

text \<open>
  The string form of an integer above 0: decimal digits, the first of them not \<open>0\<close>.
\<close>

definition positive_int_string :: "pystr \<Rightarrow> bool" where
  "positive_int_string s = (s \<noteq> [] \<and> list_all (\<lambda>c. 48 \<le> c \<and> c \<le> 57) s \<and> hd s \<noteq> 48)"

text \<open>
  A record with the three enrichment fields as the curation loop sets them: \<open>summary\<close>
  and \<open>match\<close> are present, and \<open>suitability\<close> is \<open>str(v)\<close> of a value \<open>v\<close> that
  \<open>int\<close> takes to an integer above 0.
\<close>

definition enriched :: "('e, 'c) services \<Rightarrow> job \<Rightarrow> bool" where
  "enriched sv d =
     (map_of d (asc ''summary'') \<noteq> None \<and> map_of d (asc ''match'') \<noteq> None
      \<and> (\<exists>v n. map_of d (asc ''suitability'') = Some (PStr (py_str sv v))
             \<and> py_int sv v = Inr n \<and> 0 < n))"

section \<open>Example inputs\<close>

text \<open>
  Services for the examples below. The empty text cannot be classified and every other
  text is English; the embedding of a text is the position of the call; the
  collection is the list of its entries and a query returns the first \<open>k\<close> ids in
  the order in which they were added; the language model answers the \<open>n\<close>-th request
  with the \<open>n\<close>-th text of \<open>answers\<close>; the parser knows the JSON texts of
  \<open>example_loads\<close>.
\<close>

definition response_3 :: pystr where
  \<open>response_3 = asc ''{"Suitability":3,"Job_summary":"a","Match_summary":"b"}''\<close>

definition response_9 :: pystr where
  \<open>response_9 = asc ''{"Suitability":9,"Job_summary":"a","Match_summary":"b"}''\<close>

definition response_10 :: pystr where
  \<open>response_10 = asc ''{"Suitability":10,"Job_summary":"a","Match_summary":"b"}''\<close>

definition response_true :: pystr where
  \<open>response_true = asc ''{"Suitability":true,"Job_summary":"a","Match_summary":"b"}''\<close>

definition response_no_match :: pystr where
  \<open>response_no_match = asc ''{"Suitability":3,"Job_summary":"a"}''\<close>

definition response_object :: "pyval \<Rightarrow> pyval" where
  "response_object s =
     PDict [(asc ''Suitability'', s), (asc ''Job_summary'', PStr (asc ''a'')),
            (asc ''Match_summary'', PStr (asc ''b''))]"

definition example_loads :: "pystr \<Rightarrow> py_error + pyval" where
  "example_loads s =
     (if s = response_3 then Inr (response_object (PInt 3))
      else if s = response_9 then Inr (response_object (PInt 9))
      else if s = response_10 then Inr (response_object (PInt 10))
      else if s = response_true then Inr (response_object (PBool True))
      else if s = response_no_match
        then Inr (PDict [(asc ''Suitability'', PInt 3), (asc ''Job_summary'', PStr (asc ''a''))])
      else Inl JSONDecodeError)"

definition example_detect :: "nat \<Rightarrow> pyval \<Rightarrow> py_error + pystr" where
  "example_detect i v =
     (case v of
        PStr s \<Rightarrow> if s = [] then Inl LangDetectException else Inr (asc ''en'')
      | _ \<Rightarrow> Inl TypeError)"

definition example_query :: "(pyval \<times> nat \<times> pyval) list \<Rightarrow> nat \<Rightarrow> nat \<Rightarrow> py_error + pystr list" where
  "example_query coll e k =
     Inr (take k (concat (map (\<lambda>entry. case fst entry of PStr s \<Rightarrow> [s] | _ \<Rightarrow> []) coll)))"

definition example_services :: "pystr list \<Rightarrow> (nat, (pyval \<times> nat \<times> pyval) list) services" where
  "example_services answers =
     \<lparr> detect = example_detect,
       embeddings = (\<lambda>i text. Inr i),
       collection_add = (\<lambda>coll ident e doc. Inr (coll @ [(ident, e, doc)])),
       collection_query = example_query,
       generate = (\<lambda>n prompt. if n < length answers then Inr (answers ! n) else Inl ServiceError),
       loads = example_loads,
       int_of_str = (\<lambda>s. Inl ValueError),
       int_of_float = (\<lambda>f. Inl ValueError),
       repr_other = (\<lambda>v. []),
       lt_other = (\<lambda>a b. Inl TypeError) \<rparr>"

text \<open>The same services with the embedding service failing on the first call.\<close>

definition example_services_embedding_down ::
  "(nat, (pyval \<times> nat \<times> pyval) list) services"
where
  "example_services_embedding_down =
     (example_services [])\<lparr> embeddings := (\<lambda>i text. if i = 0 then Inl ServiceError else Inr i) \<rparr>"

definition example_job :: "string \<Rightarrow> string \<Rightarrow> job" where
  "example_job ident description =
     [(asc ''id'', PStr (asc ident)), (asc ''title'', PStr (asc ''Developer'')),
      (asc ''url'', PStr []), (asc ''location'', PStr []), (asc ''date'', PStr []),
      (asc ''applicants'', PStr []), (asc ''description'', PStr (asc description)),
      (asc ''company'', PStr (asc ''Acme''))]"

text \<open>
  The state of the curation loop in which every record that \<open>final_jobs\<close> refers to is
  enriched.
\<close>

definition final_jobs_enriched :: "('e, 'c) services \<Rightarrow> job list \<times> nat list \<Rightarrow> bool" where
  "final_jobs_enriched sv st =
     (\<forall>i \<in> set (snd st). i < length (fst st) \<and> enriched sv (fst st ! i))"

text \<open>The string under \<open>suitability\<close>, for a record whose sort key is a string.\<close>

definition suitability_string :: "job \<Rightarrow> pystr" where
  "suitability_string d = (case suitability_key d of PStr s \<Rightarrow> s | _ \<Rightarrow> [])"

text \<open>Records as the examples leave the Curator.\<close>

definition curated_example :: "string \<Rightarrow> string \<Rightarrow> string \<Rightarrow> job" where
  "curated_example ident description score =
     example_job ident description
       @ [(asc ''summary'', PStr (asc ''a'')), (asc ''match'', PStr (asc ''b'')),
          (asc ''suitability'', PStr (asc score))]"

text \<open>
  The number a record is ranked by when its sort key is an integer or a boolean: the
  value under \<open>suitability\<close>, or the default 2.
\<close>

definition suitability_number :: "job \<Rightarrow> int" where
  "suitability_number d = (case num_val (suitability_key d) of Some k \<Rightarrow> k | None \<Rightarrow> 0)"
section \<open>Properties of the deduplicator\<close>

lemma red_loop_first_seen: "red_loop seen acc lst = acc @ first_seen seen lst"
  by (induction lst arbitrary: seen acc) simp_all

lemma remove_exact_duplicates_first_seen: "remove_exact_duplicates lst = first_seen {} lst"
  by (simp add: remove_exact_duplicates_def red_loop_first_seen)

lemma length_first_seen: "length (first_seen seen lst) \<le> length lst"
  by (induction lst arbitrary: seen) (simp_all add: le_SucI)

lemma subseq_first_seen: "subseq (first_seen seen lst) lst"
  by (induction lst arbitrary: seen) (auto intro: list_emb_Cons)

lemma repr_first_seen:
  "tuple_repr ` set (first_seen seen lst) = tuple_repr ` set lst - seen"
  by (induction lst arbitrary: seen) auto

lemma distinct_first_seen: "distinct (map tuple_repr (first_seen seen lst))"
proof (induction lst arbitrary: seen)
  case Nil
  show ?case by simp
next
  case (Cons d lst)
  have "tuple_repr d \<notin> tuple_repr ` set (first_seen (insert (tuple_repr d) seen) lst)"
    by (simp add: repr_first_seen)
  with Cons show ?case by simp
qed

lemma find_first_seen:
  "d \<in> set (first_seen seen lst) \<Longrightarrow> find (\<lambda>x. tuple_repr x = tuple_repr d) lst = Some d"
proof (induction lst arbitrary: seen)
  case Nil
  then show ?case by simp
next
  case (Cons x lst)
  show ?case
  proof (cases "tuple_repr x \<in> seen")
    case True
    with Cons.prems have mem: "d \<in> set (first_seen seen lst)" by simp
    then have "tuple_repr d \<in> tuple_repr ` set (first_seen seen lst)" by blast
    then have "tuple_repr d \<notin> seen" by (simp add: repr_first_seen)
    with True have "tuple_repr x \<noteq> tuple_repr d" by auto
    with Cons.IH [OF mem] show ?thesis by simp
  next
    case False
    show ?thesis
    proof (cases "d = x")
      case True
      then show ?thesis by simp
    next
      case neq: False
      with False Cons.prems
      have mem: "d \<in> set (first_seen (insert (tuple_repr x) seen) lst)" by simp
      then have "tuple_repr d \<in> tuple_repr ` set (first_seen (insert (tuple_repr x) seen) lst)"
        by blast
      then have "tuple_repr x \<noteq> tuple_repr d" by (auto simp: repr_first_seen)
      with Cons.IH [OF mem] show ?thesis by simp
    qed
  qed
qed

lemma first_seen_fixed:
  "distinct (map tuple_repr lst) \<Longrightarrow> tuple_repr ` set lst \<inter> seen = {} \<Longrightarrow>
   first_seen seen lst = lst"
proof (induction lst arbitrary: seen)
  case Nil
  show ?case by simp
next
  case (Cons d lst)
  from Cons.prems have a: "tuple_repr d \<notin> seen" by auto
  from Cons.prems have b: "distinct (map tuple_repr lst)" by simp
  from Cons.prems have c: "tuple_repr ` set lst \<inter> insert (tuple_repr d) seen = {}" by auto
  from a Cons.IH [OF b c] show ?case by simp
qed

text \<open>
  C7. Exact-duplicate removal never returns more records than it was given; the
  survivors keep their order (the result is a subsequence of the input) and each is
  the first record of the input with its sorted items; removing exact duplicates
  from the result returns the result.
\<close>

theorem remove_exact_duplicates_first_occurrence:
  "length (remove_exact_duplicates lst) \<le> length lst
   \<and> subseq (remove_exact_duplicates lst) lst
   \<and> (\<forall>d \<in> set (remove_exact_duplicates lst).
        find (\<lambda>x. tuple_repr x = tuple_repr d) lst = Some d)
   \<and> distinct (map tuple_repr (remove_exact_duplicates lst))
   \<and> remove_exact_duplicates (remove_exact_duplicates lst) = remove_exact_duplicates lst"
proof -
  have "first_seen {} (first_seen {} lst) = first_seen {} lst"
    by (rule first_seen_fixed) (simp_all add: distinct_first_seen)
  then show ?thesis
    by (simp add: remove_exact_duplicates_first_seen length_first_seen subseq_first_seen
        distinct_first_seen find_first_seen)
qed


text \<open>
  Three records: the second repeats the first with its fields in another order, the
  third differs in its id. The second is removed.
\<close>

theorem remove_exact_duplicates_first_occurrence_witness:
  "remove_exact_duplicates
     [[(asc ''id'', PStr (asc ''1'')), (asc ''title'', PStr (asc ''dev''))],
      [(asc ''title'', PStr (asc ''dev'')), (asc ''id'', PStr (asc ''1''))],
      [(asc ''id'', PStr (asc ''2'')), (asc ''title'', PStr (asc ''dev''))]]
   = [[(asc ''id'', PStr (asc ''1'')), (asc ''title'', PStr (asc ''dev''))],
      [(asc ''id'', PStr (asc ''2'')), (asc ''title'', PStr (asc ''dev''))]]"
  using remove_exact_duplicates_first_occurrence
    [of "[[(asc ''id'', PStr (asc ''1'')), (asc ''title'', PStr (asc ''dev''))],
      [(asc ''title'', PStr (asc ''dev'')), (asc ''id'', PStr (asc ''1''))],
      [(asc ''id'', PStr (asc ''2'')), (asc ''title'', PStr (asc ''dev''))]]"]
  by (simp add: remove_exact_duplicates_def tuple_repr_def asc_def)

section \<open>Properties of JSON extraction\<close>

lemma takeWhile_neq_all: "x \<notin> set xs \<Longrightarrow> takeWhile (\<lambda>c. c \<noteq> x) xs = xs"
  by (induction xs) auto

lemma takeWhile_neq_append_in:
  "x \<in> set xs \<Longrightarrow> takeWhile (\<lambda>c. c \<noteq> x) (xs @ ys) = takeWhile (\<lambda>c. c \<noteq> x) xs"
  by (induction xs) auto

lemma takeWhile_neq_append_notin:
  "x \<notin> set xs \<Longrightarrow> takeWhile (\<lambda>c. c \<noteq> x) (xs @ ys) = xs @ takeWhile (\<lambda>c. c \<noteq> x) ys"
  by (induction xs) auto

lemma in_set_drop_takeWhile:
  "x \<in> set r \<Longrightarrow> j \<le> length (takeWhile (\<lambda>c. c \<noteq> x) r) \<Longrightarrow> x \<in> set (drop j r)"
proof (induction r arbitrary: j)
  case Nil
  then show ?case by simp
next
  case (Cons c r)
  then show ?case by (cases j) (auto split: if_splits)
qed

lemma star_then_dollar_None:
  "(\<And>j. j \<le> n \<Longrightarrow> \<not> at_dollar (drop j r)) \<Longrightarrow> star_then_dollar adv r n = None"
  by (induction n) simp_all

lemma match_tail_eq:
  "match_tail adv r =
     (if rbrace \<notin> set r \<and> \<not> (adv \<and> r = []) then Some (length r) else None)"
proof (cases "rbrace \<in> set r")
  case True
  have "star_then_dollar adv r (length (takeWhile (\<lambda>c. c \<noteq> rbrace) r)) = None"
  proof (rule star_then_dollar_None)
    fix j assume "j \<le> length (takeWhile (\<lambda>c. c \<noteq> rbrace) r)"
    from in_set_drop_takeWhile [OF True this] show "\<not> at_dollar (drop j r)"
      by (auto simp: at_dollar_def)
  qed
  with True show ?thesis by (simp add: match_tail_def)
next
  case False
  show ?thesis
  proof (cases r)
    case Nil
    then show ?thesis by (simp add: match_tail_def at_dollar_def)
  next
    case (Cons c cs)
    have "match_tail adv r = star_then_dollar adv r (Suc (length cs))"
      unfolding match_tail_def takeWhile_neq_all [OF False] by (simp add: Cons)
    also have "\<dots> = Some (Suc (length cs))" by (simp add: Cons at_dollar_def)
    finally show ?thesis using False Cons by simp
  qed
qed

lemma match_here_no_head:
  "\<not> bos \<or> (adv \<and> (r = [] \<or> hd r = lbrace)) \<Longrightarrow> match_here bos adv r = match_tail adv r"
  by (cases r) (auto simp: match_here_def match_head_def)

lemma after_last_Cons:
  assumes "rbrace \<in> set (c # r)"
  shows "length (takeWhile (\<lambda>c. c \<noteq> rbrace) (rev (c # r))) =
         length (takeWhile (\<lambda>c. c \<noteq> rbrace) (rev r))"
proof (cases "rbrace \<in> set r")
  case True
  then show ?thesis by (simp add: takeWhile_neq_append_in)
next
  case False
  with assms have c: "c = rbrace" by simp
  from False have "rbrace \<notin> set (rev r)" by simp
  then show ?thesis
    by (simp add: c takeWhile_neq_append_notin takeWhile_neq_all del: set_rev)
qed

lemma after_last_le: "length (takeWhile P (rev r)) \<le> length r"
  using length_takeWhile_le [of P "rev r"] by simp

lemma re_search_tail:
  "re_search False False r =
     Some (length r - length (takeWhile (\<lambda>c. c \<noteq> rbrace) (rev r)),
           length (takeWhile (\<lambda>c. c \<noteq> rbrace) (rev r)))"
proof (induction r)
  case Nil
  show ?case by (simp add: match_here_no_head match_tail_eq)
next
  case (Cons c r)
  show ?case
  proof (cases "rbrace \<in> set (c # r)")
    case False
    then have "rbrace \<notin> set (rev (c # r))" by simp
    from takeWhile_neq_all [OF this]
    have "length (takeWhile (\<lambda>c. c \<noteq> rbrace) (rev (c # r))) = length (rev (c # r))"
      by (rule arg_cong)
    then have "length (takeWhile (\<lambda>c. c \<noteq> rbrace) (rev (c # r))) = length (c # r)"
      by (simp only: length_rev)
    moreover from False have "match_here False False (c # r) = Some (length (c # r))"
      by (simp add: match_here_no_head match_tail_eq)
    ultimately show ?thesis by (simp del: rev.simps)
  next
    case True
    then have "match_here False False (c # r) = None"
      by (simp add: match_here_no_head match_tail_eq)
    with Cons.IH after_last_Cons [OF True] after_last_le [of "\<lambda>c. c \<noteq> rbrace" r]
    show ?thesis
      by (simp add: Suc_diff_le del: rev.simps)
  qed
qed

lemma re_search_at_lbrace:
  assumes "bos \<longrightarrow> adv"
  shows "re_search bos adv (lbrace # r) = re_search False False (lbrace # r)"
proof -
  have "match_here bos adv (lbrace # r) = match_tail adv (lbrace # r)"
    using assms by (cases bos) (simp_all add: match_here_no_head)
  also have "\<dots> = match_tail False (lbrace # r)" by (simp add: match_tail_eq)
  also have "\<dots> = match_here False False (lbrace # r)" by (simp add: match_here_no_head)
  finally show ?thesis by simp
qed

lemma re_sub_loop_None: "re_search bos adv r = None \<Longrightarrow> re_sub_loop bos adv r = r"
  by (subst re_sub_loop.simps) simp

lemma re_sub_loop_Some:
  "re_search bos adv r = Some (b, n) \<Longrightarrow>
   re_sub_loop bos adv r = take b r @ re_sub_loop (bos \<and> b + n = 0) (n = 0) (drop (b + n) r)"
  by (subst re_sub_loop.simps) simp

lemma re_sub_loop_Nil:
  assumes "bos \<longrightarrow> adv"
  shows "re_sub_loop bos adv [] = []"
proof (cases adv)
  case True
  with assms have "re_search bos adv [] = None"
    by (cases bos) (simp_all add: match_here_no_head match_tail_eq)
  then show ?thesis by (rule re_sub_loop_None)
next
  case False
  with assms have bos: "\<not> bos" by simp
  have "re_search False True [] = None"
    by (simp add: match_here_no_head match_tail_eq)
  then have t: "re_sub_loop False True [] = []" by (rule re_sub_loop_None)
  have "re_search False False [] = Some (0, 0)"
    by (simp add: match_here_no_head match_tail_eq)
  from re_sub_loop_Some [OF this] t have "re_sub_loop False False [] = []" by simp
  with bos False show ?thesis by simp
qed

lemma re_sub_loop_at_lbrace:
  assumes "bos \<longrightarrow> adv"
  shows "re_sub_loop bos adv (lbrace # r) =
         take (length (lbrace # r) - length (takeWhile (\<lambda>c. c \<noteq> rbrace) (rev (lbrace # r))))
           (lbrace # r)"
proof -
  define q where "q = lbrace # r"
  define t where "t = length (takeWhile (\<lambda>c. c \<noteq> rbrace) (rev q))"
  have le: "t \<le> length q" unfolding t_def by (rule after_last_le)
  have pos: "0 < length q" by (simp add: q_def)
  have s: "re_search bos adv q = Some (length q - t, t)"
    unfolding q_def t_def using re_search_at_lbrace [OF assms] re_search_tail [of "lbrace # r"]
    by simp
  have "re_sub_loop bos adv q =
        take (length q - t) q @ re_sub_loop (bos \<and> length q - t + t = 0) (t = 0)
          (drop (length q - t + t) q)"
    by (rule re_sub_loop_Some [OF s])
  also have "length q - t + t = length q" using le by simp
  also have "drop (length q) q = []" by simp
  also have "re_sub_loop (bos \<and> length q = 0) (t = 0) [] = []"
    using pos by (intro re_sub_loop_Nil) simp
  finally show ?thesis by (simp add: q_def t_def)
qed

lemma re_sub_braces_dropWhile:
  "re_sub_braces s =
     take (length (dropWhile (\<lambda>c. c \<noteq> lbrace) s)
             - length (takeWhile (\<lambda>c. c \<noteq> rbrace) (rev (dropWhile (\<lambda>c. c \<noteq> lbrace) s))))
       (dropWhile (\<lambda>c. c \<noteq> lbrace) s)"
proof -
  define k where "k = length (takeWhile (\<lambda>c. c \<noteq> lbrace) s)"
  define r where "r = dropWhile (\<lambda>c. c \<noteq> lbrace) s"
  have "match_here True False s = Some k" by (simp add: match_here_def match_head_def k_def)
  then have "re_search True False s = Some (0, k)" by (cases s) simp_all
  from re_sub_loop_Some [OF this]
  have "re_sub_braces s = re_sub_loop (k = 0) (k = 0) (drop k s)"
    unfolding re_sub_braces_def by simp
  also have "drop k s = r" by (simp add: dropWhile_eq_drop k_def r_def)
  finally have step: "re_sub_braces s = re_sub_loop (k = 0) (k = 0) r" .
  have "re_sub_loop (k = 0) (k = 0) r =
        take (length r - length (takeWhile (\<lambda>c. c \<noteq> rbrace) (rev r))) r"
  proof (cases r)
    case Nil
    have "re_sub_loop (k = 0) (k = 0) [] = []" by (rule re_sub_loop_Nil) simp
    with Nil show ?thesis by simp
  next
    case (Cons c cs)
    have "r \<noteq> []" using Cons by simp
    then have "hd r = lbrace" unfolding r_def using hd_dropWhile [of "\<lambda>c. c \<noteq> lbrace" s] by simp
    with Cons have c: "c = lbrace" by simp
    show ?thesis unfolding Cons c by (rule re_sub_loop_at_lbrace) simp
  qed
  with step show ?thesis by (simp add: r_def)
qed

lemma re_sub_braces_eq_strip: "re_sub_braces s = strip_outside_braces s"
proof -
  define p where "p = takeWhile (\<lambda>c. c \<noteq> lbrace) s"
  define r where "r = dropWhile (\<lambda>c. c \<noteq> lbrace) s"
  define tr where "tr = length (takeWhile (\<lambda>c. c \<noteq> rbrace) (rev r))"
  define ts where "ts = length (takeWhile (\<lambda>c. c \<noteq> rbrace) (rev s))"
  have s: "s = p @ r" by (simp add: p_def r_def)
  have tr: "tr \<le> length r" unfolding tr_def by (rule after_last_le)
  have lhs: "re_sub_braces s = take (length r - tr) r"
    by (simp add: re_sub_braces_dropWhile r_def tr_def)
  have rhs: "strip_outside_braces s = drop (length p) (take (length s - ts) s)"
    by (simp add: strip_outside_braces_def Let_def p_def ts_def)
  show ?thesis
  proof (cases "rbrace \<in> set r")
    case True
    then have "rbrace \<in> set (rev r)" by simp
    then have "takeWhile (\<lambda>c. c \<noteq> rbrace) (rev r @ rev p) = takeWhile (\<lambda>c. c \<noteq> rbrace) (rev r)"
      by (rule takeWhile_neq_append_in)
    then have "ts = tr" by (simp add: ts_def tr_def s)
    then have "length s - ts = length p + (length r - tr)" using tr by (simp add: s)
    then have "take (length s - ts) s = p @ take (length r - tr) r" by (simp add: s)
    then show ?thesis by (simp add: lhs rhs)
  next
    case False
    then have nr: "rbrace \<notin> set (rev r)" by simp
    have "tr = length r" unfolding tr_def takeWhile_neq_all [OF nr] by simp
    then have l0: "re_sub_braces s = []" by (simp add: lhs)
    have "takeWhile (\<lambda>c. c \<noteq> rbrace) (rev r @ rev p) = rev r @ takeWhile (\<lambda>c. c \<noteq> rbrace) (rev p)"
      using nr by (rule takeWhile_neq_append_notin)
    then have "length r \<le> ts" by (simp add: ts_def s)
    then have "length s - ts \<le> length p" by (simp add: s)
    then have "drop (length p) (take (length s - ts) s) = []" by simp
    with l0 show ?thesis by (simp add: rhs)
  qed
qed




section \<open>Properties of the Embedder\<close>

lemma filter_dropWhile_not: "filter P (dropWhile (\<lambda>x. \<not> P x) xs) = filter P xs"
  by (induction xs) auto

lemma re_sub_non_ascii_filter: "re_sub_non_ascii s = filter (\<lambda>c. c \<le> 127) s"
proof (induction s rule: re_sub_non_ascii.induct)
  case 1
  show ?case by simp
next
  case (2 c cs)
  show ?case
  proof (cases "c \<le> 127")
    case True
    with 2 show ?thesis by simp
  next
    case False
    have "filter (\<lambda>c. c \<le> 127) (dropWhile (\<lambda>c. \<not> c \<le> 127) cs) = filter (\<lambda>c. c \<le> 127) cs"
      by (rule filter_dropWhile_not)
    with False 2 show ?thesis by (simp add: not_le)
  qed
qed

lemma space_isspace: "py_isspace space"
  by (simp add: py_isspace_def)

lemma join_space_Cons: "join_space (w # ws) = (if ws = [] then w else w @ space # join_space ws)"
  by (cases ws) simp_all

lemma py_split_Nil: "dropWhile py_isspace s = [] \<Longrightarrow> py_split s = []"
  by (subst py_split.simps) simp

lemma py_split_Cons:
  "dropWhile py_isspace s \<noteq> [] \<Longrightarrow>
   py_split s = takeWhile (\<lambda>c. \<not> py_isspace c) (dropWhile py_isspace s)
                # py_split (dropWhile (\<lambda>c. \<not> py_isspace c) (dropWhile py_isspace s))"
  by (subst py_split.simps) (simp add: Let_def)

lemma py_split_dropWhile: "py_split (dropWhile py_isspace s) = py_split s"
  by (subst (1 2) py_split.simps) simp

lemma py_split_eq_Nil: "py_split s = [] \<longleftrightarrow> dropWhile py_isspace s = []"
  by (subst py_split.simps) (simp add: Let_def)

lemma collapse_ws_words:
  "\<forall>c \<in> set w. \<not> py_isspace c \<Longrightarrow> collapse_ws (w @ x) = w @ collapse_ws x"
  by (induction w) simp_all

lemma trim_collapse_dropWhile:
  "trim_ws (collapse_ws (dropWhile py_isspace s)) = trim_ws (collapse_ws s)"
proof (cases s)
  case Nil
  then show ?thesis by simp
next
  case (Cons c cs)
  then show ?thesis by (simp add: trim_ws_def space_isspace)
qed

lemma dropWhile_append_ex:
  "\<exists>x \<in> set xs. \<not> P x \<Longrightarrow> dropWhile P (xs @ ys) = dropWhile P xs @ ys"
  by (induction xs) auto

lemma dropWhile_append_all:
  "\<forall>x \<in> set xs. P x \<Longrightarrow> dropWhile P (xs @ ys) = dropWhile P ys"
  by (induction xs) auto

lemma rstrip_ws_Cons:
  "\<exists>c \<in> set y. \<not> py_isspace c \<Longrightarrow> rstrip_ws (a # y) = a # rstrip_ws y"
  by (simp add: rstrip_ws_def dropWhile_append_ex)

lemma rstrip_ws_append:
  assumes "w \<noteq> []" and "\<forall>c \<in> set w. \<not> py_isspace c"
  shows "rstrip_ws (w @ x) = w @ rstrip_ws x"
proof (cases "\<forall>c \<in> set x. py_isspace c")
  case True
  from assms have "\<not> py_isspace (last w)" by simp
  then have w: "dropWhile py_isspace (rev w) = rev w"
    using assms(1) by (cases w rule: rev_cases) simp_all
  from True have "\<forall>c \<in> set (rev x). py_isspace c" by simp
  then have "dropWhile py_isspace (rev x @ rev w) = dropWhile py_isspace (rev w)"
    and "dropWhile py_isspace (rev x) = []"
    by (simp_all add: dropWhile_append_all del: set_rev)
  with w show ?thesis by (simp add: rstrip_ws_def)
next
  case False
  then have "\<exists>c \<in> set (rev x). \<not> py_isspace c" by simp
  then have "dropWhile py_isspace (rev x @ rev w) = dropWhile py_isspace (rev x) @ rev w"
    by (rule dropWhile_append_ex)
  then show ?thesis by (simp add: rstrip_ws_def)
qed

lemma trim_ws_word:
  assumes "w \<noteq> []" and "\<forall>c \<in> set w. \<not> py_isspace c"
  shows "trim_ws (w @ x) = w @ rstrip_ws x"
proof -
  from assms have "\<not> py_isspace (hd w)" by simp
  with assms(1) have "dropWhile py_isspace (w @ x) = w @ x" by (cases w) simp_all
  with rstrip_ws_append [OF assms] show ?thesis by (simp add: trim_ws_def)
qed

lemma collapse_ws_eq_Nil: "collapse_ws s = [] \<longleftrightarrow> s = []"
  by (cases s) simp_all

lemma hd_collapse_ws: "s \<noteq> [] \<Longrightarrow> \<not> py_isspace (hd s) \<Longrightarrow> hd (collapse_ws s) = hd s"
  by (cases s) simp_all

lemma join_split_trim_collapse: "join_space (py_split s) = trim_ws (collapse_ws s)"
proof (induction s rule: py_split.induct)
  case (1 s)
  define r where "r = dropWhile py_isspace s"
  show ?case
  proof (cases "r = []")
    case True
    then have "py_split s = []" unfolding r_def by (rule py_split_Nil)
    moreover have "trim_ws (collapse_ws s) = trim_ws (collapse_ws r)"
      unfolding r_def by (rule trim_collapse_dropWhile [symmetric])
    ultimately show ?thesis using True by (simp add: trim_ws_def rstrip_ws_def)
  next
    case False
    define w where "w = takeWhile (\<lambda>c. \<not> py_isspace c) r"
    define rest where "rest = dropWhile (\<lambda>c. \<not> py_isspace c) r"
    have r: "r = w @ rest" by (simp add: w_def rest_def)
    have "\<not> py_isspace (hd r)" using False hd_dropWhile [of py_isspace s] by (simp add: r_def)
    with False have wne: "w \<noteq> []" unfolding w_def by (cases r) simp_all
    have wns: "\<forall>c \<in> set w. \<not> py_isspace c" unfolding w_def by (auto dest: set_takeWhileD)
    have split: "py_split s = w # py_split rest"
      using False py_split_Cons [of s] by (simp add: r_def w_def rest_def)
    have IH: "join_space (py_split rest) = trim_ws (collapse_ws rest)"
      using "1.IH" [OF r_def False] by (simp add: rest_def)
    have "trim_ws (collapse_ws s) = trim_ws (collapse_ws r)"
      unfolding r_def by (rule trim_collapse_dropWhile [symmetric])
    also have "\<dots> = w @ rstrip_ws (collapse_ws rest)"
      by (simp add: r collapse_ws_words [OF wns] trim_ws_word [OF wne wns])
    finally have lhs: "trim_ws (collapse_ws s) = w @ rstrip_ws (collapse_ws rest)" .
    define u where "u = dropWhile py_isspace rest"
    show ?thesis
    proof (cases "u = []")
      case True
      then have ps: "py_split rest = []" unfolding u_def by (rule py_split_Nil)
      have "rstrip_ws (collapse_ws rest) = []"
      proof (cases rest)
        case Nil
        then show ?thesis by (simp add: rstrip_ws_def)
      next
        case (Cons c cs)
        with True have c: "py_isspace c" and dn: "dropWhile py_isspace cs = []"
          by (auto simp: u_def split: if_splits)
        have "collapse_ws rest = space # collapse_ws (dropWhile py_isspace cs)"
          by (simp add: Cons c)
        also have "\<dots> = [space]" unfolding dn by simp
        finally show ?thesis by (simp add: rstrip_ws_def space_isspace)
      qed
      with ps split lhs show ?thesis by simp
    next
      case uf: False
      then have ps: "py_split rest \<noteq> []" by (simp add: py_split_eq_Nil u_def)
      obtain c cs where rest_eq: "rest = c # cs" using uf by (cases rest) (auto simp: u_def)
      have "rest = [] \<or> py_isspace (hd rest)"
        unfolding rest_def using hd_dropWhile [of "\<lambda>c. \<not> py_isspace c" r] by auto
      with rest_eq have c: "py_isspace c" by simp
      with rest_eq have u: "u = dropWhile py_isspace cs" by (simp add: u_def)
      have hu: "\<not> py_isspace (hd u)" using uf hd_dropWhile [of py_isspace rest] by (simp add: u_def)
      have cu: "collapse_ws u \<noteq> []" using uf by (simp add: collapse_ws_eq_Nil)
      have hcu: "\<not> py_isspace (hd (collapse_ws u))" using uf hu by (simp add: hd_collapse_ws)
      from cu hcu have ex: "\<exists>c \<in> set (collapse_ws u). \<not> py_isspace c"
        by (metis hd_in_set)
      from cu hcu have dw: "dropWhile py_isspace (collapse_ws u) = collapse_ws u"
        by (cases "collapse_ws u") simp_all
      have "rstrip_ws (collapse_ws rest) = rstrip_ws (space # collapse_ws u)"
        using rest_eq c u by simp
      also have "\<dots> = space # rstrip_ws (collapse_ws u)" by (rule rstrip_ws_Cons [OF ex])
      also have "rstrip_ws (collapse_ws u) = trim_ws (collapse_ws u)" by (simp add: trim_ws_def dw)
      also have "\<dots> = trim_ws (collapse_ws rest)"
        unfolding u_def by (rule trim_collapse_dropWhile)
      finally have "rstrip_ws (collapse_ws rest) = space # trim_ws (collapse_ws rest)" .
      with ps split lhs IH show ?thesis by (simp add: join_space_Cons)
    qed
  qed
qed

lemma preprocess_normalized: "preprocess text = normalized text"
  by (simp add: preprocess_def normalized_def re_sub_non_ascii_filter join_split_trim_collapse)

text \<open>
  C6. The Embedder deletes every character outside 0x00-0x7F and keeps the others as
  they are, collapses every run of whitespace to one space and trims the text; the
  embedding service is called with the result.
\<close>

theorem create_embedding_sends_normalized_text:
  "re_sub_non_ascii s = filter (\<lambda>c. c \<le> 127) s
   \<and> preprocess s = normalized s
   \<and> create_embedding sv i s = embeddings sv i (normalized s)"
  by (simp add: create_embedding_def preprocess_normalized re_sub_non_ascii_filter)

text \<open>
  A text with an accented letter, runs of blanks, a file separator (0x1C), a tab and a
  newline.
\<close>

theorem create_embedding_sends_normalized_text_witness:
  "preprocess ([32, 104, 233, 108, 108, 111, 32, 32, 32, 119, 28] @ asc ''orld'' @ [9, 10, 32, 120, 32])
   = asc ''hllo w orld x''"
  using create_embedding_sends_normalized_text
    [where s = "[32, 104, 233, 108, 108, 111, 32, 32, 32, 119, 28] @ asc ''orld'' @ [9, 10, 32, 120, 32]"
       and sv = "example_services []" and i = 0]
  by (simp add: normalized_def trim_ws_def rstrip_ws_def py_isspace_def asc_def)

section \<open>Properties of the Curator\<close>

lemma map_of_setitem: "map_of (setitem d k v) k' = (if k' = k then Some v else map_of d k')"
  by (induction d) auto

lemma curate_try_kept_iff:
  "snd (curate_try sv current_job answer) = Inr True \<longleftrightarrow> accepted_response sv answer"
  unfolding curate_try_def accepted_response_def subscript_def getitem_def
  by (auto split: sum.splits pyval.splits option.splits)

lemma curate_step_answer:
  assumes "find_job jobs ident = Some i"
    and "getitem (jobs ! i) (asc ''title'') = Inr title"
    and "getitem (jobs ! i) (asc ''description'') = Inr description"
    and "generate sv n (build_prompt cp profile (py_str sv description)) = Inr answer"
  shows "curate_step sv cp profile n (jobs, final) ident =
           Inr (jobs[i := fst (curate_try sv (jobs ! i) answer)],
                if snd (curate_try sv (jobs ! i) answer) = Inr True then final @ [i] else final)"
  using assms by (simp add: curate_step_def)

lemmas example_eval =
  example_services_def example_loads_def example_detect_def example_query_def example_job_def
  response_3_def response_9_def response_10_def response_true_def response_no_match_def
  response_object_def

lemma parse_response_strip: "parse_response sv s = loads sv (strip_outside_braces s)"
  by (simp add: parse_response_def re_sub_braces_eq_strip)

text \<open>
  C2. Take a candidate whose record is found and for which the language model returned an
  answer. Its record is appended to \<open>final_jobs\<close> if and only if the answer parses to
  an object with \<open>Suitability\<close>, \<open>Job_summary\<close> and \<open>Match_summary\<close> whose
  \<open>Suitability\<close> coerces to an integer above 0. In every other case (no JSON, a missing
  field, a score that is not a number or not positive) \<open>final_jobs\<close> stays as it was,
  the pass ends without an exception, and the loop goes on with the remaining candidates.
\<close>

theorem curator_keeps_iff_accepted:
  assumes "find_job jobs ident = Some i"
    and "getitem (jobs ! i) (asc ''title'') = Inr title"
    and "getitem (jobs ! i) (asc ''description'') = Inr description"
    and "generate sv n (build_prompt cp profile (py_str sv description)) = Inr answer"
  shows "(snd (curate_try sv (jobs ! i) answer) = Inr True \<longleftrightarrow> accepted_response sv answer)
    \<and> curate_step sv cp profile n (jobs, final) ident =
         Inr (jobs[i := fst (curate_try sv (jobs ! i) answer)],
              if accepted_response sv answer then final @ [i] else final)
    \<and> curation_loop sv cp profile n (jobs, final) (ident # idents) =
         curation_loop sv cp profile (Suc n)
           (jobs[i := fst (curate_try sv (jobs ! i) answer)],
            if accepted_response sv answer then final @ [i] else final) idents"
  using curate_step_answer [OF assms]
  by (simp add: curate_try_kept_iff)

text \<open>
  One record and the answer of the specification's example, wrapped in prose: the record
  is kept, with its three enrichment fields.
\<close>

theorem curator_keeps_iff_accepted_witness:
  "curation_loop
     (example_services [asc ''Sure! '' @ response_3 @ asc '' Thanks.''])
     (asc ''Rate the job.'') (asc ''Engineer'') 0
     ([example_job ''1'' ''Build things''], []) [asc ''1'']
   = Inr ([example_job ''1'' ''Build things''
             @ [(asc ''summary'', PStr (asc ''a'')), (asc ''match'', PStr (asc ''b'')),
                (asc ''suitability'', PStr (asc ''3''))]],
          [0])"
proof -
  let ?sv = "example_services [asc ''Sure! '' @ response_3 @ asc '' Thanks.'']"
  let ?jobs = "[example_job ''1'' ''Build things'']"
  have f: "find_job ?jobs (asc ''1'') = Some 0"
    by (simp add: example_job_def asc_def)
  have t: "getitem (?jobs ! 0) (asc ''title'') = Inr (PStr (asc ''Developer''))"
    by (simp add: example_job_def getitem_def asc_def)
  have d: "getitem (?jobs ! 0) (asc ''description'') = Inr (PStr (asc ''Build things''))"
    by (simp add: example_job_def getitem_def asc_def)
  have g: "generate ?sv 0
             (build_prompt (asc ''Rate the job.'') (asc ''Engineer'')
                (py_str ?sv (PStr (asc ''Build things''))))
           = Inr (asc ''Sure! '' @ response_3 @ asc '' Thanks.'')"
    by (simp add: example_services_def)
  have p: "parse_response ?sv (asc ''Sure! '' @ response_3 @ asc '' Thanks.'')
           = Inr (response_object (PInt 3))"
    by (simp add: parse_response_strip strip_outside_braces_def example_eval asc_def)
  have a: "accepted_response ?sv (asc ''Sure! '' @ response_3 @ asc '' Thanks.'')"
    unfolding accepted_response_def p response_object_def
    by (simp add: py_int_def asc_def)
  have c: "fst (curate_try ?sv (?jobs ! 0) (asc ''Sure! '' @ response_3 @ asc '' Thanks.''))
           = example_job ''1'' ''Build things''
             @ [(asc ''summary'', PStr (asc ''a'')), (asc ''match'', PStr (asc ''b'')),
                (asc ''suitability'', PStr (asc ''3''))]"
    unfolding curate_try_def p response_object_def
    by (simp add: subscript_def getitem_def py_int_def py_str_def int_str_def nat_str.simps
        example_job_def asc_def)
  from curator_keeps_iff_accepted [OF f t d g, of "[]" "[]"] a c show ?thesis
    by simp
qed

lemma curate_try_no_match_summary:
  assumes "parse_response sv answer = Inr (PDict d)"
    and "map_of d (asc ''Suitability'') = Some s" and "py_int sv s = Inr k" and "0 < k"
    and "map_of d (asc ''Job_summary'') = Some js"
    and "map_of d (asc ''Match_summary'') = None"
  shows "curate_try sv current_job answer = (setitem current_job (asc ''summary'') js, Inl KeyError)"
  using assms by (simp add: curate_try_def subscript_def getitem_def)

text \<open>
  C10. When the answer parses to an object whose \<open>Suitability\<close> coerces to an integer
  above 0 and that has a \<open>Job_summary\<close> but no \<open>Match_summary\<close>, the record is not
  appended to \<open>final_jobs\<close>, but it is changed: \<open>summary\<close> is now the answer's
  \<open>Job_summary\<close>, while \<open>match\<close> and \<open>suitability\<close> are what they were (unset, if
  they were unset).
\<close>

theorem missing_match_summary_leaves_summary_set:
  assumes "parse_response sv answer = Inr (PDict d)"
    and "map_of d (asc ''Suitability'') = Some s" and "py_int sv s = Inr k" and "0 < k"
    and "map_of d (asc ''Job_summary'') = Some js"
    and "map_of d (asc ''Match_summary'') = None"
    and "find_job jobs ident = Some i"
    and "getitem (jobs ! i) (asc ''title'') = Inr title"
    and "getitem (jobs ! i) (asc ''description'') = Inr description"
    and "generate sv n (build_prompt cp profile (py_str sv description)) = Inr answer"
  shows "curate_step sv cp profile n (jobs, final) ident =
           Inr (jobs[i := setitem (jobs ! i) (asc ''summary'') js], final)
    \<and> map_of (setitem (jobs ! i) (asc ''summary'') js) (asc ''summary'') = Some js
    \<and> map_of (setitem (jobs ! i) (asc ''summary'') js) (asc ''match'')
         = map_of (jobs ! i) (asc ''match'')
    \<and> map_of (setitem (jobs ! i) (asc ''summary'') js) (asc ''suitability'')
         = map_of (jobs ! i) (asc ''suitability'')"
  using curate_step_answer [OF assms(7-10)]
    curate_try_no_match_summary [OF assms(1-6), of "jobs ! i"]
  by (simp add: map_of_setitem asc_def)

text \<open>The answer \<open>{"Suitability":3,"Job_summary":"a"}\<close> of the specification.\<close>

theorem missing_match_summary_leaves_summary_set_witness:
  "curate_step (example_services [response_no_match]) (asc ''Rate the job.'') (asc ''Engineer'') 0
     ([example_job ''1'' ''Build things''], []) (asc ''1'')
   = Inr ([example_job ''1'' ''Build things'' @ [(asc ''summary'', PStr (asc ''a''))]], [])"
proof -
  let ?sv = "example_services [response_no_match]"
  let ?jobs = "[example_job ''1'' ''Build things'']"
  let ?d = "[(asc ''Suitability'', PInt 3), (asc ''Job_summary'', PStr (asc ''a''))]"
  have p: "parse_response ?sv response_no_match = Inr (PDict ?d)"
    by (simp add: parse_response_strip strip_outside_braces_def example_eval asc_def)
  have s: "map_of ?d (asc ''Suitability'') = Some (PInt 3)" by simp
  have k: "py_int ?sv (PInt 3) = Inr 3" by (simp add: py_int_def)
  have js: "map_of ?d (asc ''Job_summary'') = Some (PStr (asc ''a''))" by (simp add: asc_def)
  have ms: "map_of ?d (asc ''Match_summary'') = None" by (simp add: asc_def)
  have f: "find_job ?jobs (asc ''1'') = Some 0"
    by (simp add: example_job_def asc_def)
  have t: "getitem (?jobs ! 0) (asc ''title'') = Inr (PStr (asc ''Developer''))"
    by (simp add: example_job_def getitem_def asc_def)
  have d: "getitem (?jobs ! 0) (asc ''description'') = Inr (PStr (asc ''Build things''))"
    by (simp add: example_job_def getitem_def asc_def)
  have g: "generate ?sv 0
             (build_prompt (asc ''Rate the job.'') (asc ''Engineer'')
                (py_str ?sv (PStr (asc ''Build things''))))
           = Inr response_no_match"
    by (simp add: example_services_def)
  have u: "setitem (example_job ''1'' ''Build things'') (asc ''summary'') (PStr (asc ''a''))
           = example_job ''1'' ''Build things'' @ [(asc ''summary'', PStr (asc ''a''))]"
    by (simp add: example_job_def asc_def)
  from missing_match_summary_leaves_summary_set [OF p s k _ js ms f t d g, of "[]"] u
  show ?thesis by simp
qed

section \<open>Records that reach the Ranker\<close>

lemma find_job_less: "find_job jobs ident = Some i \<Longrightarrow> i < length jobs"
  by (induction jobs arbitrary: i) (auto split: if_splits)

lemma curate_try_kept_enriched:
  "snd (curate_try sv current_job answer) = Inr True \<Longrightarrow>
   enriched sv (fst (curate_try sv current_job answer))"
  unfolding curate_try_def enriched_def
  by (auto simp: map_of_setitem asc_def split: sum.splits if_splits)

lemma enriched_setitem_summary:
  "enriched sv d \<Longrightarrow> enriched sv (setitem d (asc ''summary'') v)"
  by (auto simp: enriched_def map_of_setitem asc_def)

lemma enriched_setitem_match:
  "enriched sv d \<Longrightarrow> enriched sv (setitem d (asc ''match'') v)"
  by (auto simp: enriched_def map_of_setitem asc_def)

lemma curate_try_preserves_enriched:
  assumes "enriched sv current_job"
  shows "enriched sv (fst (curate_try sv current_job answer))"
proof (cases "snd (curate_try sv current_job answer) = Inr True")
  case True
  then show ?thesis by (rule curate_try_kept_enriched)
next
  case False
  then show ?thesis
    using assms enriched_setitem_summary [OF assms]
      enriched_setitem_match [OF enriched_setitem_summary [OF assms]]
    unfolding curate_try_def
    by (auto split: sum.splits if_splits)
qed

lemma curate_step_enriched:
  assumes "curate_step sv cp profile n st ident = Inr st'" and "final_jobs_enriched sv st"
  shows "final_jobs_enriched sv st'"
proof -
  from assms(1) obtain i answer where i: "find_job (fst st) ident = Some i"
    and st': "st' = ((fst st)[i := fst (curate_try sv (fst st ! i) answer)],
                     if snd (curate_try sv (fst st ! i) answer) = Inr True then snd st @ [i]
                     else snd st)"
    by (auto simp: curate_step_def split: option.splits sum.splits)
  from i have len: "i < length (fst st)" by (rule find_job_less)
  show ?thesis
    unfolding final_jobs_enriched_def
  proof
    fix k assume k: "k \<in> set (snd st')"
    show "k < length (fst st') \<and> enriched sv (fst st' ! k)"
    proof (cases "k = i")
      case True
      show ?thesis
      proof (cases "snd (curate_try sv (fst st ! i) answer) = Inr True")
        case kept: True
        with True len st' show ?thesis by (simp add: curate_try_kept_enriched)
      next
        case False
        with k st' True have "i \<in> set (snd st)" by simp
        with assms(2) have "enriched sv (fst st ! i)" by (simp add: final_jobs_enriched_def)
        with True len st' show ?thesis by (simp add: curate_try_preserves_enriched)
      qed
    next
      case False
      with k st' have "k \<in> set (snd st)" by (auto split: if_splits)
      with assms(2) have "k < length (fst st) \<and> enriched sv (fst st ! k)"
        by (simp add: final_jobs_enriched_def)
      with False st' show ?thesis by simp
    qed
  qed
qed

lemma curation_loop_enriched:
  "curation_loop sv cp profile n st idents = Inr st' \<Longrightarrow> final_jobs_enriched sv st \<Longrightarrow>
   final_jobs_enriched sv st'"
proof (induction idents arbitrary: n st)
  case Nil
  then show ?case by simp
next
  case (Cons ident idents)
  from Cons.prems(1) obtain st1 where s1: "curate_step sv cp profile n st ident = Inr st1"
    and rest: "curation_loop sv cp profile (Suc n) st1 idents = Inr st'"
    by (auto split: sum.splits)
  from Cons.IH [OF rest curate_step_enriched [OF s1 Cons.prems(2)]] show ?case .
qed

lemma nat_str_digits:
  "0 < m \<Longrightarrow> nat_str m \<noteq> [] \<and> list_all (\<lambda>c. 48 \<le> c \<and> c \<le> 57) (nat_str m) \<and> hd (nat_str m) \<noteq> 48"
proof (induction m rule: nat_str.induct)
  case (1 n)
  show ?case
  proof (cases "n < 10")
    case True
    with "1.prems" show ?thesis by (subst (1 2 3) nat_str.simps) simp
  next
    case False
    then have "0 < n div 10" by simp
    from "1.IH" [OF False this] False show ?thesis
      by (subst (1 2 3) nat_str.simps) simp
  qed
qed

lemma positive_int_string_int_str: "0 < n \<Longrightarrow> positive_int_string (int_str n)"
  using nat_str_digits [of "nat n"] by (simp add: positive_int_string_def int_str_def)





section \<open>Failures while the corpus is indexed\<close>

lemma embed_jobs_append:
  "embed_jobs sv i coll (xs @ ys) =
     (case embed_jobs sv i coll xs of
        Inl e \<Rightarrow> Inl e
      | Inr coll' \<Rightarrow> embed_jobs sv (i + length xs) coll' ys)"
  by (induction xs arbitrary: i coll) (auto split: sum.splits)

lemma run_embed_jobs_fails:
  "embed_jobs sv 0 coll (remove_exact_duplicates jobs) = Inl e \<Longrightarrow>
   run sv cp coll jobs profile = Inl e"
  by (simp add: run_def)

text \<open>
  C3, as stated, fails: \<open>embed_jobs\<close> has no handler around the call of the detector.
  With a first record whose description is empty, which the detector cannot classify,
  indexing ends with the detector's exception; had the record been skipped, the result
  would be the collection with the second record.
\<close>

theorem detection_failure_skips_job_counterexample:
  "embed_jobs (example_services []) 0 []
     [example_job ''1'' [], example_job ''2'' ''Build things'']
   = Inl LangDetectException
   \<and> embed_jobs (example_services []) 1 [] [example_job ''2'' ''Build things'']
   = Inr [(PStr (asc ''2''), 1, PStr (asc ''Build things''))]"
  by (simp add: example_eval getitem_def job_text_def as_str_def create_embedding_def
      store_embeddings_def LANG_def asc_def)

text \<open>
  C3, amended. When language detection fails on the description of a job record, the
  exception is not caught: \<open>embed_jobs\<close> ends with it at that record, the records
  behind it are neither embedded nor indexed, and the run ends with that exception.
\<close>

theorem detection_failure_ends_run:
  assumes "remove_exact_duplicates jobs = pre @ job # rest"
    and "embed_jobs sv 0 coll pre = Inr coll'"
    and "getitem job (asc ''description'') = Inr description"
    and "detect sv (length pre) description = Inl e"
  shows "embed_jobs sv 0 coll (pre @ job # rest) = Inl e
    \<and> run sv cp coll jobs profile = Inl e"
proof -
  have "embed_jobs sv 0 coll (pre @ job # rest) = Inl e"
    using assms(2-4) by (simp add: embed_jobs_append)
  with assms(1) show ?thesis by (simp add: run_embed_jobs_fails)
qed

text \<open>Two records, the second with an empty description.\<close>

theorem detection_failure_ends_run_witness:
  "run (example_services []) (asc ''Rate the job.'') []
     [example_job ''1'' ''Build things'', example_job ''2'' []] (asc ''Engineer'')
   = Inl LangDetectException"
proof -
  let ?sv = "example_services []"
  let ?j1 = "example_job ''1'' ''Build things''" and ?j2 = "example_job ''2'' []"
  have r: "remove_exact_duplicates [?j1, ?j2] = [?j1] @ ?j2 # []"
    by (simp add: remove_exact_duplicates_def tuple_repr_def example_job_def asc_def)
  have p: "embed_jobs ?sv 0 [] [?j1] = Inr [(PStr (asc ''1''), 0, PStr (asc ''Build things''))]"
    by (simp add: example_eval getitem_def job_text_def as_str_def create_embedding_def
        store_embeddings_def LANG_def asc_def)
  have d: "getitem ?j2 (asc ''description'') = Inr (PStr [])"
    by (simp add: example_job_def getitem_def asc_def)
  have f: "detect ?sv (length [?j1]) (PStr []) = Inl LangDetectException"
    by (simp add: example_services_def example_detect_def)
  from detection_failure_ends_run [OF r p d f] show ?thesis by simp
qed

text \<open>
  C4, as stated, fails: \<open>create_embedding\<close> does not catch the exception of the
  embedding service and \<open>embed_jobs\<close> does not catch it either. With the service
  failing on the first record, indexing ends with the service's exception; had the record
  been skipped, the result would be the collection with the second record.
\<close>

theorem embedding_failure_skips_job_counterexample:
  "embed_jobs example_services_embedding_down 0 []
     [example_job ''1'' ''Build things'', example_job ''2'' ''Ship code'']
   = Inl ServiceError
   \<and> embed_jobs example_services_embedding_down 1 [] [example_job ''2'' ''Ship code'']
   = Inr [(PStr (asc ''2''), 1, PStr (asc ''Ship code''))]"
  by (simp add: example_services_embedding_down_def example_eval getitem_def job_text_def
      as_str_def create_embedding_def store_embeddings_def LANG_def asc_def)

text \<open>
  C4, amended. When the embedding call fails for a job record during indexing, the
  exception is not caught: \<open>embed_jobs\<close> ends with it at that record and the run
  ends with that exception, as it does when embedding the profile fails.
\<close>

theorem embedding_failure_ends_run:
  assumes "remove_exact_duplicates jobs = pre @ job # rest"
    and "embed_jobs sv 0 coll pre = Inr coll'"
    and "getitem job (asc ''description'') = Inr description"
    and "detect sv (length pre) description = Inr LANG"
    and "job_text job = Inr s"
    and "create_embedding sv (length pre) s = Inl e"
  shows "embed_jobs sv 0 coll (pre @ job # rest) = Inl e
    \<and> run sv cp coll jobs profile = Inl e
    \<and> (embed_jobs sv 0 coll (remove_exact_duplicates jobs') = Inr c
         \<and> create_embedding sv (length (remove_exact_duplicates jobs')) profile' = Inl e'
         \<longrightarrow> run sv cp coll jobs' profile' = Inl e')"
proof -
  have "embed_jobs sv 0 coll (pre @ job # rest) = Inl e"
    using assms(2-6) by (simp add: embed_jobs_append)
  with assms(1) show ?thesis by (simp add: run_embed_jobs_fails) (simp add: run_def)
qed

text \<open>Two records in English, with the embedding service failing on the first.\<close>

theorem embedding_failure_ends_run_witness:
  "run example_services_embedding_down (asc ''Rate the job.'') []
     [example_job ''1'' ''Build things'', example_job ''2'' ''Ship code''] (asc ''Engineer'')
   = Inl ServiceError"
proof -
  let ?sv = "example_services_embedding_down"
  let ?j1 = "example_job ''1'' ''Build things''" and ?j2 = "example_job ''2'' ''Ship code''"
  have r: "remove_exact_duplicates [?j1, ?j2] = [] @ ?j1 # [?j2]"
    by (simp add: remove_exact_duplicates_def tuple_repr_def example_job_def asc_def)
  have p: "embed_jobs ?sv 0 [] [] = Inr []" by simp
  have d: "getitem ?j1 (asc ''description'') = Inr (PStr (asc ''Build things''))"
    by (simp add: example_job_def getitem_def asc_def)
  have f: "detect ?sv (length ([] :: job list)) (PStr (asc ''Build things'')) = Inr LANG"
    by (simp add: example_services_embedding_down_def example_services_def example_detect_def
        LANG_def asc_def)
  have t: "job_text ?j1 = Inr (asc ''DeveloperBuild thingsAcme'')"
    by (simp add: job_text_def as_str_def example_job_def getitem_def asc_def)
  have c: "create_embedding ?sv (length ([] :: job list)) (asc ''DeveloperBuild thingsAcme'')
           = Inl ServiceError"
    by (simp add: create_embedding_def example_services_embedding_down_def example_services_def)
  from embedding_failure_ends_run [OF r p d f t c] show ?thesis by simp
qed

section \<open>Properties of the Ranker\<close>

text \<open>
  When the keys of all records can be compared, the model of \<open>sorted\<close> is the stable
  sort of the library, applied to the reversed list and reversed again.
\<close>

lemma insert_sorted_insort_key:
  assumes "\<forall>a \<in> insert x (insert y (set zs)). \<forall>b \<in> insert x (insert y (set zs)).
             lt (key a) (key b) = Inr (f a < f b)"
    and "insert_sorted lt key x zs = Inr r"
  shows "insert_sorted lt key x (insort_key f y zs) = Inr (insort_key f y r)"
  using assms
proof (induction zs arbitrary: r)
  case Nil
  then have xy: "lt (key x) (key y) = Inr (f x < f y)" and r: "r = [x]" by simp_all
  show ?case
  proof (cases "f x < f y")
    case True
    with xy r show ?thesis by auto
  next
    case False
    with xy r show ?thesis by auto
  qed
next
  case (Cons z zs)
  from Cons.prems(1) have xz: "lt (key x) (key z) = Inr (f x < f z)"
    and xy: "lt (key x) (key y) = Inr (f x < f y)"
    and sub: "\<forall>a \<in> insert x (insert y (set zs)). \<forall>b \<in> insert x (insert y (set zs)).
                lt (key a) (key b) = Inr (f a < f b)"
    by simp_all
  show ?case
  proof (cases "f x < f z")
    case True
    with Cons.prems(2) xz have r: "r = x # z # zs" by simp
    show ?thesis
    proof (cases "f y \<le> f z")
      case yz: True
      show ?thesis
      proof (cases "f x < f y")
        case xy': True
        with True yz r xz xy show ?thesis by auto
      next
        case xy': False
        with True yz r xz xy show ?thesis by auto
      qed
    next
      case yz: False
      with True have "f x < f y" by simp
      with True yz r xz xy show ?thesis by auto
    qed
  next
    case False
    with Cons.prems(2) xz obtain r' where r': "insert_sorted lt key x zs = Inr r'"
      and r: "r = z # r'"
      by (auto split: sum.splits)
    note IH = Cons.IH [OF sub r']
    show ?thesis
    proof (cases "f y \<le> f z")
      case yz: True
      show ?thesis
      proof (cases "f x < f y")
        case xy': True
        with yz False show ?thesis by simp
      next
        case xy': False
        with yz False r r' xz xy show ?thesis by simp
      qed
    next
      case yz: False
      with False r r' xz xy IH show ?thesis by simp
    qed
  qed
qed

lemma insert_sorted_sort_key:
  assumes "\<forall>a \<in> insert x (set ys). \<forall>b \<in> insert x (set ys). lt (key a) (key b) = Inr (f a < f b)"
  shows "insert_sorted lt key x (sort_key f ys) = Inr (sort_key f (ys @ [x]))"
  using assms
proof (induction ys)
  case Nil
  show ?case by simp
next
  case (Cons y ys)
  from Cons.prems
  have sub: "\<forall>a \<in> insert x (set ys). \<forall>b \<in> insert x (set ys). lt (key a) (key b) = Inr (f a < f b)"
    by simp
  from Cons.prems
  have all: "\<forall>a \<in> insert x (insert y (set (sort_key f ys))).
               \<forall>b \<in> insert x (insert y (set (sort_key f ys))).
                 lt (key a) (key b) = Inr (f a < f b)"
    by simp
  from insert_sorted_insort_key [where lt = lt and key = key and f = f, OF all Cons.IH [OF sub]]
  show ?case by simp
qed

lemma sort_loop_sort_key:
  assumes "\<forall>a \<in> set done \<union> set xs. \<forall>b \<in> set done \<union> set xs. lt (key a) (key b) = Inr (f a < f b)"
  shows "sort_loop lt key (sort_key f done) xs = Inr (sort_key f (done @ xs))"
  using assms
proof (induction xs arbitrary: "done")
  case Nil
  show ?case by simp
next
  case (Cons x xs)
  from Cons.prems
  have a: "\<forall>a \<in> insert x (set done). \<forall>b \<in> insert x (set done). lt (key a) (key b) = Inr (f a < f b)"
    by simp
  from Cons.prems
  have b: "\<forall>a \<in> set (done @ [x]) \<union> set xs. \<forall>b \<in> set (done @ [x]) \<union> set xs.
             lt (key a) (key b) = Inr (f a < f b)"
    by simp
  from insert_sorted_sort_key [where lt = lt and key = key and f = f, OF a] Cons.IH [OF b]
  show ?case by simp
qed

lemma py_sorted_reverse_sort_key:
  assumes "\<forall>a \<in> set xs. \<forall>b \<in> set xs. lt (key a) (key b) = Inr (f a < f b)"
  shows "py_sorted_reverse lt key xs = Inr (rev (sort_key f (rev xs)))"
proof -
  from assms
  have "\<forall>a \<in> set [] \<union> set (rev xs). \<forall>b \<in> set [] \<union> set (rev xs). lt (key a) (key b) = Inr (f a < f b)"
    by simp
  from sort_loop_sort_key [where lt = lt and key = key and f = f, OF this]
  show ?thesis by (simp add: py_sorted_reverse_def)
qed

lemma ranker_on_string_keys:
  assumes "\<forall>d \<in> set xs. \<exists>s. suitability_key d = PStr s"
  shows "ranker sv xs = Inr (rev (sort_key suitability_string (rev xs)))"
proof -
  have "py_lt sv (suitability_key a) (suitability_key b)
        = Inr (suitability_string a < suitability_string b)"
    if "a \<in> set xs" "b \<in> set xs" for a b
  proof -
    from assms that obtain s t where "suitability_key a = PStr s" "suitability_key b = PStr t"
      by blast
    then show ?thesis by (simp add: py_lt_def suitability_string_def)
  qed
  then have "\<forall>a \<in> set xs. \<forall>b \<in> set xs.
               py_lt sv (suitability_key a) (suitability_key b)
               = Inr (suitability_string a < suitability_string b)"
    by blast
  from py_sorted_reverse_sort_key
    [where lt = "py_lt sv" and key = suitability_key and f = suitability_string, OF this]
  show ?thesis by (simp add: ranker_def)
qed

lemma ranker_stable_permutation:
  assumes "\<forall>d \<in> set xs. \<exists>s. suitability_key d = PStr s"
  shows "\<exists>ys. ranker sv xs = Inr ys \<and> mset ys = mset xs
           \<and> sorted (rev (map suitability_string ys))
           \<and> (\<forall>k. filter (\<lambda>d. suitability_string d = k) ys
                    = filter (\<lambda>d. suitability_string d = k) xs)"
proof -
  define ys where "ys = rev (sort_key suitability_string (rev xs))"
  have r: "ranker sv xs = Inr ys" unfolding ys_def by (rule ranker_on_string_keys [OF assms])
  have m: "mset ys = mset xs" by (simp add: ys_def)
  have s: "sorted (rev (map suitability_string ys))" by (simp add: ys_def rev_map)
  have "filter (\<lambda>d. suitability_string d = k) ys = filter (\<lambda>d. suitability_string d = k) xs"
    for k
  proof -
    have "filter (\<lambda>d. suitability_string d = k) ys
          = rev (filter (\<lambda>d. suitability_string d = k) (sort_key suitability_string (rev xs)))"
      by (simp add: ys_def rev_filter)
    also have "\<dots> = rev (filter (\<lambda>d. suitability_string d = k) (rev xs))"
      by (simp only: sort_key_stable)
    also have "\<dots> = filter (\<lambda>d. suitability_string d = k) xs"
      by (simp add: rev_filter)
    finally show ?thesis .
  qed
  with r m s show ?thesis by blast
qed

lemma enriched_string_key: "enriched sv d \<Longrightarrow> \<exists>s. suitability_key d = PStr s"
  by (auto simp: enriched_def suitability_key_def)

text \<open>
  The records that leave the curation loop carry strings under \<open>suitability\<close>, so the
  Ranker returns a permutation of them, in descending order of these strings, and
  records with the same string keep their order.
\<close>

lemma ranker_of_curated:
  assumes "curation_loop sv cp profile n (jobs, []) idents = Inr st"
  shows "\<exists>ys. ranker sv (map (\<lambda>i. fst st ! i) (snd st)) = Inr ys
           \<and> mset ys = mset (map (\<lambda>i. fst st ! i) (snd st))
           \<and> sorted (rev (map suitability_string ys))
           \<and> (\<forall>k. filter (\<lambda>d. suitability_string d = k) ys
                    = filter (\<lambda>d. suitability_string d = k) (map (\<lambda>i. fst st ! i) (snd st)))"
proof (rule ranker_stable_permutation)
  have "final_jobs_enriched sv (jobs, [])" by (simp add: final_jobs_enriched_def)
  from curation_loop_enriched [OF assms this]
  show "\<forall>d \<in> set (map (\<lambda>i. fst st ! i) (snd st)). \<exists>s. suitability_key d = PStr s"
    by (auto simp: final_jobs_enriched_def dest: enriched_string_key)
qed

lemma curate_try_example_job:
  assumes "parse_response sv answer = Inr (response_object s)"
    and "py_int sv s = Inr k" and "0 < k"
  shows "curate_try sv (example_job ident description) answer
         = (example_job ident description
              @ [(asc ''summary'', PStr (asc ''a'')), (asc ''match'', PStr (asc ''b'')),
                 (asc ''suitability'', PStr (py_str sv s))], Inr True)"
  unfolding curate_try_def assms(1) response_object_def
  using assms(2,3) by (simp add: subscript_def getitem_def example_job_def asc_def)

lemma ranker_two_strings:
  "ranker sv [curated_example i1 d1 ''10'', curated_example i2 d2 ''9'']
   = Inr [curated_example i2 d2 ''9'', curated_example i1 d1 ''10'']"
  by (simp add: ranker_def py_sorted_reverse_def suitability_key_def curated_example_def
      example_job_def py_lt_def asc_def)

text \<open>
  C1. The Ranker's output should be in descending numeric order of the scores. The
  keys it compares are the strings stored by the Curator, so the order is the
  lexicographic one: with the answers \<open>{"Suitability":10, ...}\<close> for the first retrieved
  job and \<open>{"Suitability":9, ...}\<close> for the second, the run ranks the job scored 9
  before the job scored 10.
\<close>

theorem ranker_orders_scores_as_strings:
  "run (example_services [response_10, response_9]) (asc ''Rate the job.'') []
     [example_job ''1'' ''Build things'', example_job ''2'' ''Ship code''] (asc ''Engineer'')
   = Inr [curated_example ''2'' ''Ship code'' ''9'',
          curated_example ''1'' ''Build things'' ''10'']"
proof -
  let ?sv = "example_services [response_10, response_9]"
  let ?cp = "asc ''Rate the job.''" and ?profile = "asc ''Engineer''"
  let ?j1 = "example_job ''1'' ''Build things''" and ?j2 = "example_job ''2'' ''Ship code''"
  let ?c1 = "curated_example ''1'' ''Build things'' ''10''"
  let ?c2 = "curated_example ''2'' ''Ship code'' ''9''"
  let ?coll = "[(PStr (asc ''1''), 0, PStr (asc ''Build things'')),
                (PStr (asc ''2''), Suc 0, PStr (asc ''Ship code''))]"
  have r: "remove_exact_duplicates [?j1, ?j2] = [?j1, ?j2]"
    by (simp add: remove_exact_duplicates_def tuple_repr_def example_job_def asc_def)
  have e: "embed_jobs ?sv 0 [] [?j1, ?j2] = Inr ?coll"
    by (simp add: example_eval getitem_def job_text_def as_str_def create_embedding_def
        store_embeddings_def LANG_def asc_def)
  have pe: "create_embedding ?sv (length [?j1, ?j2]) ?profile = Inr 2"
    by (simp add: create_embedding_def example_services_def)
  have q: "collection_query ?sv ?coll 2 N_RESULTS = Inr [asc ''1'', asc ''2'']"
    by (simp add: example_services_def example_query_def N_RESULTS_def)
  have p10: "parse_response ?sv response_10 = Inr (response_object (PInt 10))"
    by (simp add: parse_response_strip strip_outside_braces_def example_eval asc_def)
  have p9: "parse_response ?sv response_9 = Inr (response_object (PInt 9))"
    by (simp add: parse_response_strip strip_outside_braces_def example_eval asc_def)
  have s10: "py_str ?sv (PInt 10) = asc ''10''"
    by (simp add: py_str_def int_str_def nat_str.simps asc_def)
  have s9: "py_str ?sv (PInt 9) = asc ''9''"
    by (simp add: py_str_def int_str_def nat_str.simps asc_def)
  have t1: "curate_try ?sv ?j1 response_10 = (?c1, Inr True)"
    using curate_try_example_job [OF p10, of 10 "''1''" "''Build things''"]
    by (simp add: py_int_def s10 curated_example_def)
  have t2: "curate_try ?sv ?j2 response_9 = (?c2, Inr True)"
    using curate_try_example_job [OF p9, of 9 "''2''" "''Ship code''"]
    by (simp add: py_int_def s9 curated_example_def)
  have f1: "find_job [?j1, ?j2] (asc ''1'') = Some 0"
    by (simp add: example_job_def asc_def)
  have f2: "find_job [?c1, ?j2] (asc ''2'') = Some 1"
    by (simp add: example_job_def curated_example_def asc_def)
  have g1: "getitem ([?j1, ?j2] ! 0) (asc ''title'') = Inr (PStr (asc ''Developer''))"
    "getitem ([?j1, ?j2] ! 0) (asc ''description'') = Inr (PStr (asc ''Build things''))"
    by (simp_all add: example_job_def getitem_def asc_def)
  have g2: "getitem ([?c1, ?j2] ! 1) (asc ''title'') = Inr (PStr (asc ''Developer''))"
    "getitem ([?c1, ?j2] ! 1) (asc ''description'') = Inr (PStr (asc ''Ship code''))"
    by (simp_all add: example_job_def getitem_def asc_def)
  have a1: "generate ?sv 0 (build_prompt ?cp ?profile (py_str ?sv (PStr (asc ''Build things''))))
            = Inr response_10"
    by (simp add: example_services_def)
  have a2: "generate ?sv (Suc 0) (build_prompt ?cp ?profile (py_str ?sv (PStr (asc ''Ship code''))))
            = Inr response_9"
    by (simp add: example_services_def)
  have st1: "curate_step ?sv ?cp ?profile 0 ([?j1, ?j2], []) (asc ''1'') = Inr ([?c1, ?j2], [0])"
    unfolding curate_step_answer [OF f1 g1 a1] using t1 by simp
  have st2: "curate_step ?sv ?cp ?profile (Suc 0) ([?c1, ?j2], [0]) (asc ''2'')
             = Inr ([?c1, ?c2], [0, 1])"
    unfolding curate_step_answer [OF f2 g2 a2] using t2 by simp
  have l: "curation_loop ?sv ?cp ?profile 0 ([?j1, ?j2], []) [asc ''1'', asc ''2'']
           = Inr ([?c1, ?c2], [0, 1])"
    by (simp add: st1 st2)
  have k: "ranker ?sv [?c1, ?c2] = Inr [?c2, ?c1]" by (rule ranker_two_strings)
  show ?thesis
    unfolding run_def r e using pe q l k by simp
qed

text \<open>
  The default of the sort key. Every record that the curation loop hands to the Ranker
  has the field \<open>suitability\<close>, with a string under it, so in a run the default 2 of
  the key function is never taken.
\<close>

lemma curated_records_have_suitability:
  assumes "curation_loop sv cp profile n (jobs, []) idents = Inr st"
  shows "\<forall>d \<in> set (map (\<lambda>i. fst st ! i) (snd st)).
           map_of d (asc ''suitability'') \<noteq> None \<and> (\<exists>s. suitability_key d = PStr s)"
proof -
  have "final_jobs_enriched sv (jobs, [])" by (simp add: final_jobs_enriched_def)
  from curation_loop_enriched [OF assms this] show ?thesis
    by (auto simp: final_jobs_enriched_def enriched_def suitability_key_def)
qed

text \<open>
  Outside a run: the default is the integer 2, and Python does not order an integer
  against a string. Next to a record whose \<open>suitability\<close> is the string \<open>"1"\<close>, as the
  Curator stores it, a record without the field makes the sort raise a \<open>TypeError\<close>.
\<close>

lemma ranker_default_against_string:
  "ranker (example_services [])
     [curated_example ''1'' ''Build things'' ''1'', example_job ''2'' ''Ship code'']
   = Inl TypeError"
  by (simp add: ranker_def py_sorted_reverse_def suitability_key_def curated_example_def
      example_job_def py_lt_def num_val_def is_float_def is_list_def asc_def)

lemma ranker_on_number_keys:
  assumes "\<forall>d \<in> set xs. num_val (suitability_key d) \<noteq> None"
  shows "ranker sv xs = Inr (rev (sort_key suitability_number (rev xs)))"
proof -
  have "py_lt sv (suitability_key a) (suitability_key b)
        = Inr (suitability_number a < suitability_number b)"
    if "a \<in> set xs" "b \<in> set xs" for a b
  proof -
    from assms that obtain k l where k: "num_val (suitability_key a) = Some k"
      and l: "num_val (suitability_key b) = Some l"
      by blast
    from k have "\<forall>s. suitability_key a \<noteq> PStr s" by (auto simp: num_val_def)
    with k l show ?thesis
      by (cases "suitability_key a"; cases "suitability_key b")
        (simp_all add: py_lt_def suitability_number_def)
  qed
  then have "\<forall>a \<in> set xs. \<forall>b \<in> set xs.
               py_lt sv (suitability_key a) (suitability_key b)
               = Inr (suitability_number a < suitability_number b)"
    by blast
  from py_sorted_reverse_sort_key
    [where lt = "py_lt sv" and key = suitability_key and f = suitability_number, OF this]
  show ?thesis by (simp add: ranker_def)
qed

lemma missing_suitability_number:
  "map_of d (asc ''suitability'') = None \<Longrightarrow> suitability_number d = 2"
  by (simp add: suitability_number_def suitability_key_def num_val_def)

text \<open>
  In a list in which the \<open>suitability\<close> values that are present are integers, a record
  without the field is ranked by the default 2: it stands before every record with a
  score below 2 and behind every record with a score above 2.
\<close>

lemma ranker_default_among_integers:
  assumes "\<forall>d \<in> set xs. num_val (suitability_key d) \<noteq> None"
  shows "\<exists>ys. ranker sv xs = Inr ys \<and> mset ys = mset xs
           \<and> (\<forall>i < length ys. \<forall>j < length ys.
                 map_of (ys ! i) (asc ''suitability'') = None \<longrightarrow>
                   (suitability_number (ys ! j) < 2 \<longrightarrow> i < j)
                   \<and> (2 < suitability_number (ys ! j) \<longrightarrow> j < i))"
proof -
  define ys where "ys = rev (sort_key suitability_number (rev xs))"
  have r: "ranker sv xs = Inr ys" unfolding ys_def by (rule ranker_on_number_keys [OF assms])
  have m: "mset ys = mset xs" by (simp add: ys_def)
  have "sorted (rev (map suitability_number ys))" by (simp add: ys_def rev_map)
  then have desc: "sorted_wrt (\<lambda>a b. suitability_number b \<le> suitability_number a) ys"
    by (simp add: sorted_wrt_rev sorted_wrt_map flip: rev_map)
  have "(suitability_number (ys ! j) < 2 \<longrightarrow> i < j) \<and> (2 < suitability_number (ys ! j) \<longrightarrow> j < i)"
    if i: "i < length ys" and j: "j < length ys"
      and none: "map_of (ys ! i) (asc ''suitability'') = None" for i j
  proof -
    from none have two: "suitability_number (ys ! i) = 2" by (rule missing_suitability_number)
    have a: "i < j" if "suitability_number (ys ! j) < 2"
    proof (rule ccontr)
      assume "\<not> i < j"
      then have "j < i \<or> j = i" by auto
      then show False
      proof
        assume "j < i"
        from sorted_wrt_nth_less [OF desc this i] two that show False by simp
      next
        assume "j = i"
        with two that show False by simp
      qed
    qed
    have b: "j < i" if "2 < suitability_number (ys ! j)"
    proof (rule ccontr)
      assume "\<not> j < i"
      then have "i < j \<or> j = i" by auto
      then show False
      proof
        assume "i < j"
        from sorted_wrt_nth_less [OF desc this j] two that show False by simp
      next
        assume "j = i"
        with two that show False by simp
      qed
    qed
    from a b show ?thesis by blast
  qed
  with r m show ?thesis by blast
qed

text \<open>Scores 1 and 3 around a record without the field.\<close>

lemma ranker_default_among_integers_example:
  "ranker (example_services [])
     [[(asc ''suitability'', PInt 1)], [], [(asc ''suitability'', PInt 3)]]
   = Inr [[(asc ''suitability'', PInt 3)], [], [(asc ''suitability'', PInt 1)]]"
proof -
  let ?xs = "[[(asc ''suitability'', PInt 1)], [], [(asc ''suitability'', PInt 3)]] :: job list"
  have h: "\<forall>d \<in> set ?xs. num_val (suitability_key d) \<noteq> None"
    by (simp add: suitability_key_def num_val_def)
  have e: "ranker (example_services []) ?xs
           = Inr [[(asc ''suitability'', PInt 3)], [], [(asc ''suitability'', PInt 1)]]"
    by (simp add: ranker_def py_sorted_reverse_def suitability_key_def py_lt_def num_val_def)
  from ranker_default_among_integers [OF h, of "example_services []"] e show ?thesis by simp
qed
end
